theory Spec2Isabelle
  imports Complex_Main "HOL-Library.Code_Target_Numeral"
begin

section \<open>Data model of the image canvas (src/src/App.tsx, DraggableImageCanvas)\<close>

text \<open>
  A JavaScript \<open>number\<close> is modelled as a rational (\<^typ>\<open>rat\<close>). Positions, sizes, zoom and
  pan are computed exactly. The two sums that produce identities and stacking orders,
  \<open>Date.now() + Math.random()\<close> and \<open>now + img.id\<close>, are rounded to binary64 (\<open>fl\<close> below):
  at the magnitude of a clock reading a double keeps 12 fraction bits, so that different
  exact sums become the same number. A reading of \<open>Date.now()\<close> is a natural number of
  milliseconds and a draw of \<open>Math.random()\<close> is a rational; both are inputs of the handler
  that asks for them. The toast message and the drag-over highlight (\<open>showToast\<close>,
  \<open>dragActive\<close>) are display state that no handler below reads; they are left out.
\<close>

text \<open>An object literal \<open>{ x, y }\<close>; \<open>ImageItem\<close> has the same two fields and extends it.\<close>

record Point =
  x :: rat
  y :: rat

record File =
  file_name :: string
  file_size :: nat
  file_type :: string

text \<open>
  \<open>interface ImageItem\<close>. The fields \<open>id\<close>, \<open>file\<close>, \<open>size\<close> and \<open>type\<close> carry a prime: the
  plain names are constants of HOL or keywords of Isabelle.
\<close>

record ImageItem = Point +
  id' :: rat
  file' :: File
  src :: string
  name :: string
  size' :: nat
  type' :: string
  uploadedAt :: string
  width :: rat
  height :: rat
  originalWidth :: nat
  originalHeight :: nat
  zIndex :: rat

record SelectionBox =
  startX :: rat
  startY :: rat
  endX :: rat
  endY :: rat

text \<open>The result of \<open>getBoundingClientRect()\<close>, as far as the handlers read it.\<close>

record DOMRect =
  rect_left :: rat
  rect_top :: rat
  rect_width :: rat
  rect_height :: rat

text \<open>
  A mouse event. \<open>targetIsCurrentTarget\<close> is the test \<open>e.target === e.currentTarget\<close> and
  \<open>currentTargetRect\<close> is \<open>e.currentTarget.getBoundingClientRect()\<close>.
\<close>

record MouseEvent =
  clientX :: rat
  clientY :: rat
  button :: int
  ctrlKey :: bool
  metaKey :: bool
  targetIsCurrentTarget :: bool
  currentTargetRect :: DOMRect

record WheelEvent =
  deltaY :: rat

text \<open>The \<open>useState\<close> cells of the component, in the order of their declaration.\<close>

record state =
  images :: "ImageItem list"
  selectedImage :: "rat option"
  selectedImages :: "rat set"
  dragOffset :: Point
  isDraggingImage :: bool
  isDraggingGroup :: bool
  isSelecting :: bool
  selectionBox :: SelectionBox
  lastMousePos :: Point
  zoomLevel :: rat
  panOffset :: Point
  isPanning :: bool
  panStartPos :: Point

definition initial :: state where
  "initial =
     \<lparr>images = [], selectedImage = None, selectedImages = {},
      dragOffset = \<lparr>x = 0, y = 0\<rparr>,
      isDraggingImage = False, isDraggingGroup = False, isSelecting = False,
      selectionBox = \<lparr>startX = 0, startY = 0, endX = 0, endY = 0\<rparr>,
      lastMousePos = \<lparr>x = 0, y = 0\<rparr>,
      zoomLevel = 1,
      panOffset = \<lparr>x = 0, y = 0\<rparr>,
      isPanning = False,
      panStartPos = \<lparr>x = 0, y = 0\<rparr>\<rparr>"

text \<open>
  What the browser hands to the callbacks of \<open>addImage\<close>: the decoded image, the data
  URL, the window size, and the clock readings and random draws in the order the
  callback asks for them.
\<close>

record LoadEnv =
  img_width :: nat
  img_height :: nat
  result :: string
  innerWidth :: rat
  innerHeight :: rat
  random_x :: rat
  random_y :: rat
  now_id :: nat
  random_id :: rat
  now_name :: nat
  date_string :: string
  now_zIndex :: nat

section \<open>Helpers of the embedding\<close>

text \<open>The truthiness of \<open>selectedImage\<close> (\<open>number | null\<close>): \<open>null\<close> and \<open>0\<close> are falsy.\<close>

fun truthy :: "rat option \<Rightarrow> bool" where
  "truthy None = False"
| "truthy (Some v) = (v \<noteq> 0)"

definition startsWith :: "string \<Rightarrow> string \<Rightarrow> bool" where
  "startsWith s p = (take (length p) s = p)"

text \<open>\<open>xs.map((a, index) => f(a, index))\<close>, with the index counted from \<open>k\<close>.\<close>

fun map_index_from :: "nat \<Rightarrow> ('a \<Rightarrow> nat \<Rightarrow> 'b) \<Rightarrow> 'a list \<Rightarrow> 'b list" where
  "map_index_from k f [] = []"
| "map_index_from k f (a # as) = f a k # map_index_from (Suc k) f as"

definition map_index :: "('a \<Rightarrow> nat \<Rightarrow> 'b) \<Rightarrow> 'a list \<Rightarrow> 'b list" where
  "map_index f xs = map_index_from 0 f xs"

text \<open>The decimal digits of a clock reading, for the fallback file name.\<close>

fun digit_char :: "nat \<Rightarrow> char" where
  "digit_char n = char_of (48 + n)"

fun decimal :: "nat \<Rightarrow> string" where
  "decimal n = (if n < 10 then [digit_char n] else decimal (n div 10) @ [digit_char (n mod 10)])"

declare decimal.simps [simp del]

subsection \<open>Rounding to binary64\<close>

text \<open>
  The spacing of the doubles around a positive \<open>q\<close>: the power of two \<open>u\<close> with
  \<open>2^52 * u \<le> q < 2^53 * u\<close>, and \<open>2^-1074\<close> for the subnormal numbers. The search starts at
  \<open>u = 1\<close> and doubles or halves.
\<close>

definition min_subnormal :: rat where
  "min_subnormal = 1 / 2 ^ 1074"

function scale_up :: "rat \<Rightarrow> rat \<Rightarrow> rat" where
  "scale_up q u = (if 0 < u \<and> 2 ^ 53 * u \<le> q then scale_up q (2 * u) else u)"
  by pat_completeness auto
termination
proof (relation "measure (\<lambda>(q, u). nat \<lfloor>q / u\<rfloor>)")
  show "wf (measure (\<lambda>(q, u). nat \<lfloor>q / u\<rfloor>))" by simp
next
  fix q u :: rat
  assume a: "0 < u \<and> 2 ^ 53 * u \<le> q"
  define t where "t = q / u"
  from a have t: "2 ^ 53 \<le> t" by (simp add: t_def pos_le_divide_eq)
  then have "2 \<le> t" by simp
  then have f2: "2 \<le> \<lfloor>t\<rfloor>" by (simp add: le_floor_iff)
  have "\<lfloor>t / 2\<rfloor> < \<lfloor>t\<rfloor>"
  proof -
    have "t / 2 < of_int \<lfloor>t\<rfloor>"
    proof -
      have "t < of_int \<lfloor>t\<rfloor> + 1" by linarith
      moreover from f2 have "(2::rat) \<le> of_int \<lfloor>t\<rfloor>" by simp
      ultimately show ?thesis by linarith
    qed
    then show ?thesis by (simp add: floor_less_iff)
  qed
  moreover have "q / (2 * u) = t / 2" "q / u = t" by (simp_all add: t_def)
  ultimately have "nat \<lfloor>q / (2 * u)\<rfloor> < nat \<lfloor>q / u\<rfloor>"
    using f2 by (simp only: zless_nat_conj) simp
  then show "((q, 2 * u), (q, u)) \<in> measure (\<lambda>(q, u). nat \<lfloor>q / u\<rfloor>)" by simp
qed

function scale_down :: "rat \<Rightarrow> rat \<Rightarrow> rat" where
  "scale_down q u = (if min_subnormal < u \<and> q < 2 ^ 52 * u then scale_down q (u / 2) else u)"
  by pat_completeness auto
termination
proof (relation "measure (\<lambda>(q, u). nat \<lceil>u / min_subnormal\<rceil>)")
  show "wf (measure (\<lambda>(q, u). nat \<lceil>u / min_subnormal\<rceil>))" by simp
next
  fix q u :: rat
  assume a: "min_subnormal < u \<and> q < 2 ^ 52 * u"
  define t where "t = u / min_subnormal"
  have m: "0 < min_subnormal" by (simp add: min_subnormal_def)
  with a have t: "1 < t" by (simp add: t_def pos_less_divide_eq)
  then have c2: "2 \<le> \<lceil>t\<rceil>" by (simp add: le_ceiling_iff)
  have "\<lceil>t / 2\<rceil> < \<lceil>t\<rceil>"
  proof -
    have "t \<le> of_int \<lceil>t\<rceil>" by linarith
    moreover from c2 have "(2::rat) \<le> of_int \<lceil>t\<rceil>" by simp
    ultimately have "t / 2 \<le> of_int \<lceil>t\<rceil> - 1" by linarith
    then have "t / 2 \<le> of_int (\<lceil>t\<rceil> - 1)" by simp
    then have "\<lceil>t / 2\<rceil> \<le> \<lceil>t\<rceil> - 1" by (simp only: ceiling_le_iff)
    then show ?thesis by simp
  qed
  moreover have "u / 2 / min_subnormal = t / 2" "u / min_subnormal = t" by (simp_all add: t_def)
  ultimately have "nat \<lceil>u / 2 / min_subnormal\<rceil> < nat \<lceil>u / min_subnormal\<rceil>"
    using c2 by (simp only: zless_nat_conj) simp
  then show "((q, u / 2), (q, u)) \<in> measure (\<lambda>(q, u). nat \<lceil>u / min_subnormal\<rceil>)" by simp
qed

declare scale_up.simps [simp del] scale_down.simps [simp del]

definition ulp :: "rat \<Rightarrow> rat" where
  "ulp q = (if 2 ^ 53 \<le> q then scale_up q 1 else scale_down q 1)"

text \<open>The nearest integer, a tie going to the even one.\<close>

definition round_half_even :: "rat \<Rightarrow> int" where
  "round_half_even t =
     (let f = \<lfloor>t\<rfloor>; d = t - of_int f
      in if d < 1 / 2 then f else if 1 / 2 < d then f + 1 else if even f then f else f + 1)"

text \<open>
  \<open>fl q\<close> is the double nearest to \<open>q\<close>, as the result of a binary64 operation whose exact
  result is \<open>q\<close>. A rational has no infinity: for \<open>q\<close> beyond the largest double \<open>fl\<close> still
  rounds to 53 bits. No sum below comes near that, a clock reading being at most
  \<open>8.64e15\<close>.
\<close>

definition fl :: "rat \<Rightarrow> rat" where
  "fl q = (if q = 0 then 0
           else if 0 < q then ulp q * of_int (round_half_even (q / ulp q))
           else - (ulp (- q) * of_int (round_half_even (- q / ulp (- q)))))"

text \<open>
  The quotient of two element sizes, \<open>img.width / img.height\<close>: division by zero gives
  \<open>Infinity\<close>, and \<open>0 / 0\<close> gives \<open>NaN\<close>.
\<close>

datatype quotient = Finite rat | Infinity | NaN

definition js_divide :: "nat \<Rightarrow> nat \<Rightarrow> quotient" where
  "js_divide a b =
     (if b \<noteq> 0 then Finite (of_nat a / of_nat b) else if a = 0 then NaN else Infinity)"

section \<open>The handlers\<close>

subsection \<open>Coordinate transform\<close>

text \<open>
  The source writes the pointer-to-canvas transform inline, once per axis, in
  \<open>handleCanvasMouseDown\<close> and in the rubber-band branch of \<open>handleMouseMove\<close>:
  \<^verbatim>\<open>(e.clientX - rect.left - centerX) / zoomLevel + centerX - panOffset.x\<close>
  with \<open>centerX = rect.width / 2\<close>. The pointer coordinate relative to the canvas element
  is \<open>e.clientX - rect.left\<close>.
\<close>

definition toCanvasSpace :: "rat \<Rightarrow> rat \<Rightarrow> rat \<Rightarrow> rat \<Rightarrow> rat" where
  "toCanvasSpace pointer center zoom pan = (pointer - center) / zoom + center - pan"

definition canvasPointX :: "MouseEvent \<Rightarrow> DOMRect \<Rightarrow> state \<Rightarrow> rat" where
  "canvasPointX e rect s =
     (let centerX = rect_width rect / 2
      in (clientX e - rect_left rect - centerX) / zoomLevel s + centerX - x (panOffset s))"

definition canvasPointY :: "MouseEvent \<Rightarrow> DOMRect \<Rightarrow> state \<Rightarrow> rat" where
  "canvasPointY e rect s =
     (let centerY = rect_height rect / 2
      in (clientY e - rect_top rect - centerY) / zoomLevel s + centerY - y (panOffset s))"

subsection \<open>Document-level listeners\<close>

text \<open>
  \<open>handleMouseMove\<close>; the second argument is the outcome of
  \<open>document.querySelector('.min-h-screen')\<close> (\<open>None\<close> for \<open>null\<close>).
\<close>

definition handleMouseMove :: "MouseEvent \<Rightarrow> DOMRect option \<Rightarrow> state \<Rightarrow> state" where
  "handleMouseMove e canvasElement s =
     (let s1 = s\<lparr>lastMousePos := \<lparr>x = clientX e, y = clientY e\<rparr>\<rparr>
      in if isDraggingImage s \<and> truthy (selectedImage s) then
           (let deltaX = (clientX e - x (dragOffset s)) / zoomLevel s;
                deltaY = (clientY e - y (dragOffset s)) / zoomLevel s
            in s1\<lparr>images := map (\<lambda>img. if Some (id' img) = selectedImage s
                                        then img\<lparr>x := x img + deltaX, y := y img + deltaY\<rparr>
                                        else img) (images s),
                  dragOffset := \<lparr>x = clientX e, y = clientY e\<rparr>\<rparr>)
         else if isDraggingGroup s \<and> card (selectedImages s) > 0 then
           (let deltaX = (clientX e - x (dragOffset s)) / zoomLevel s;
                deltaY = (clientY e - y (dragOffset s)) / zoomLevel s
            in s1\<lparr>images := map (\<lambda>img. if id' img \<in> selectedImages s
                                        then img\<lparr>x := x img + deltaX, y := y img + deltaY\<rparr>
                                        else img) (images s),
                  dragOffset := \<lparr>x = clientX e, y = clientY e\<rparr>\<rparr>)
         else if isPanning s then
           (let deltaX = clientX e - x (panStartPos s);
                deltaY = clientY e - y (panStartPos s)
            in s1\<lparr>panOffset := \<lparr>x = x (panOffset s) + deltaX, y = y (panOffset s) + deltaY\<rparr>,
                  panStartPos := \<lparr>x = clientX e, y = clientY e\<rparr>\<rparr>)
         else if isSelecting s then
           (case canvasElement of
              None \<Rightarrow> s1
            | Some rect \<Rightarrow>
                s1\<lparr>selectionBox := (selectionBox s)\<lparr>endX := canvasPointX e rect s,
                                                      endY := canvasPointY e rect s\<rparr>\<rparr>)
         else s1)"

text \<open>The test of the \<open>forEach\<close> in \<open>handleMouseUp\<close>: the centre of the image is in the box.\<close>

definition centerInBox :: "SelectionBox \<Rightarrow> ImageItem \<Rightarrow> bool" where
  "centerInBox sb img =
     (let box_left = min (startX sb) (endX sb);
          box_right = max (startX sb) (endX sb);
          box_top = min (startY sb) (endY sb);
          box_bottom = max (startY sb) (endY sb);
          imgCenterX = x img + width img / 2;
          imgCenterY = y img + height img / 2
      in imgCenterX \<ge> box_left \<and> imgCenterX \<le> box_right \<and>
         imgCenterY \<ge> box_top \<and> imgCenterY \<le> box_bottom)"

definition handleMouseUp :: "state \<Rightarrow> state" where
  "handleMouseUp s =
     (let s1 = (if isSelecting s then
                  (let selectedIds =
                         foldl (\<lambda>acc img. if centerInBox (selectionBox s) img
                                           then insert (id' img) acc else acc) {} (images s)
                   in s\<lparr>selectedImages := selectedIds, isSelecting := False\<rparr>)
                else s)
      in s1\<lparr>isDraggingImage := False, isDraggingGroup := False, isPanning := False,
            selectedImage := None\<rparr>)"

definition handleWheel :: "WheelEvent \<Rightarrow> state \<Rightarrow> state" where
  "handleWheel e s =
     (let zoomFactor = 1 / 10;
          delta = (if deltaY e > 0 then - zoomFactor else zoomFactor);
          newZoom = max (1 / 10) (min 3 (zoomLevel s + delta))
      in s\<lparr>zoomLevel := newZoom\<rparr>)"

subsection \<open>Handlers of the component\<close>

text \<open>
  The body of the inner \<open>onload\<close> callback of \<open>addImage\<close> once width and height of the
  placed image are known: the position, the new item, and the append.
\<close>

definition placeImage :: "LoadEnv \<Rightarrow> File \<Rightarrow> rat option \<Rightarrow> rat option \<Rightarrow> rat \<Rightarrow> rat \<Rightarrow> state \<Rightarrow> state" where
  "placeImage env f dropX dropY w h s =
     (let px = (case (dropX, dropY) of
                  (Some dx, Some dy) \<Rightarrow> max 0 (min (dx - w / 2) (innerWidth env - w))
                | _ \<Rightarrow> random_x env * (innerWidth env - w - 100) + 50);
          py = (case (dropX, dropY) of
                  (Some dx, Some dy) \<Rightarrow> max 100 (min (dy - h / 2) (innerHeight env - h - 50))
                | _ \<Rightarrow> random_y env * (innerHeight env - h - 300) + 200);
          newImage =
            \<lparr>x = px, y = py,
             id' = fl (of_nat (now_id env) + random_id env),
             file' = f,
             src = result env,
             name = (if file_name f \<noteq> [] then file_name f
                     else ''clipboard-image-'' @ decimal (now_name env) @ ''.png''),
             size' = file_size f,
             type' = file_type f,
             uploadedAt = date_string env,
             width = w, height = h,
             originalWidth = img_width env,
             originalHeight = img_height env,
             zIndex = of_nat (now_zIndex env)\<rparr>
      in s\<lparr>images := images s @ [newImage]\<rparr>)"

text \<open>
  \<open>addImage\<close> with its two nested \<open>onload\<close> callbacks run to completion: a file that is
  not an image is ignored, a file that cannot be read or decoded (no \<open>LoadEnv\<close>) never
  reaches the inner callback, and a decoded one is appended. An element of height 0 has
  the aspect ratio \<open>Infinity\<close>: the test \<open>aspectRatio > 1\<close> holds and
  \<open>maxSize / aspectRatio\<close> is 0. An element of width 0 and height 0 has the aspect ratio
  \<open>NaN\<close>, and the item is appended with a width and a position that are \<open>NaN\<close>; the
  numbers of this model do not include \<open>NaN\<close>, and the result is \<open>None\<close>: such a load is
  outside the model.
\<close>

definition addImage :: "LoadEnv option \<Rightarrow> File \<Rightarrow> rat option \<Rightarrow> rat option \<Rightarrow> state \<Rightarrow> state option" where
  "addImage loaded f dropX dropY s =
     (if \<not> startsWith (file_type f) ''image/'' then Some s
      else case loaded of
        None \<Rightarrow> Some s
      | Some env \<Rightarrow>
          (let maxSize = 200
           in case js_divide (img_width env) (img_height env) of
                NaN \<Rightarrow> None
              | Infinity \<Rightarrow> Some (placeImage env f dropX dropY maxSize 0 s)
              | Finite aspectRatio \<Rightarrow>
                  Some (placeImage env f dropX dropY
                          (if aspectRatio > 1 then maxSize else maxSize * aspectRatio)
                          (if aspectRatio > 1 then maxSize / aspectRatio else maxSize) s)))"

text \<open>\<open>handleImageMouseDown\<close>; \<open>now\<close> is the reading of \<open>Date.now()\<close> of the branch taken.\<close>

definition handleImageMouseDown :: "nat \<Rightarrow> MouseEvent \<Rightarrow> rat \<Rightarrow> state \<Rightarrow> state" where
  "handleImageMouseDown now e imageId s =
     (if ctrlKey e \<or> metaKey e then
        s\<lparr>selectedImages := (if imageId \<in> selectedImages s
                              then selectedImages s - {imageId}
                              else insert imageId (selectedImages s))\<rparr>
      else if imageId \<in> selectedImages s \<and> card (selectedImages s) > 1 then
        s\<lparr>isDraggingGroup := True,
          dragOffset := \<lparr>x = clientX e, y = clientY e\<rparr>,
          images := map (\<lambda>img. if id' img \<in> selectedImages s
                                then img\<lparr>zIndex := fl (of_nat now + id' img)\<rparr>
                                else img) (images s)\<rparr>
      else
        s\<lparr>selectedImage := Some imageId,
          selectedImages := {imageId},
          isDraggingImage := True,
          dragOffset := \<lparr>x = clientX e, y = clientY e\<rparr>,
          images := map (\<lambda>img. if id' img = imageId
                                then img\<lparr>zIndex := of_nat now\<rparr>
                                else img) (images s)\<rparr>)"

definition handleCanvasMouseDown :: "MouseEvent \<Rightarrow> state \<Rightarrow> state" where
  "handleCanvasMouseDown e s =
     (if targetIsCurrentTarget e then
        (if button e = 1 then
           s\<lparr>isPanning := True, panStartPos := \<lparr>x = clientX e, y = clientY e\<rparr>\<rparr>
         else if button e = 0 then
           (let rect = currentTargetRect e;
                cx = canvasPointX e rect s;
                cy = canvasPointY e rect s
            in s\<lparr>selectedImages := {},
                 isSelecting := True,
                 selectionBox := \<lparr>startX = cx, startY = cy, endX = cx, endY = cy\<rparr>\<rparr>)
         else s)
      else s)"

definition removeImage :: "rat \<Rightarrow> state \<Rightarrow> state" where
  "removeImage i s = s\<lparr>images := filter (\<lambda>img. id' img \<noteq> i) (images s)\<rparr>"

definition resetImagePositions :: "state \<Rightarrow> state" where
  "resetImagePositions s =
     s\<lparr>images := map_index (\<lambda>img index.
                     img\<lparr>x := 50 + of_nat (index mod 4) * 220,
                         y := 200 + of_int \<lfloor>(of_nat index :: rat) / 4\<rfloor> * 220\<rparr>) (images s),
       selectedImages := {}\<rparr>"

definition resetZoom :: "state \<Rightarrow> state" where
  "resetZoom s = s\<lparr>zoomLevel := 1, panOffset := \<lparr>x = 0, y = 0\<rparr>\<rparr>"

definition deleteSelectedImages :: "state \<Rightarrow> state" where
  "deleteSelectedImages s =
     s\<lparr>images := filter (\<lambda>img. id' img \<notin> selectedImages s) (images s),
       selectedImages := {}\<rparr>"

subsection \<open>Runs of the component\<close>

text \<open>
  One constructor per handler, with the inputs the handler takes from its event and from
  the browser. The component processes one event to completion before the next. A load
  that is outside the model leaves the state as it is; it is never a step of a valid run.
\<close>

datatype event =
    AddImage "LoadEnv option" File "rat option" "rat option"
  | ImageMouseDown nat MouseEvent rat
  | CanvasMouseDown MouseEvent
  | MouseMove MouseEvent "DOMRect option"
  | MouseUp
  | Wheel WheelEvent
  | RemoveImage rat
  | ResetImagePositions
  | ResetZoom
  | DeleteSelectedImages

fun dispatch :: "state \<Rightarrow> event \<Rightarrow> state" where
  "dispatch s (AddImage loaded f dropX dropY) =
     (case addImage loaded f dropX dropY s of Some s' \<Rightarrow> s' | None \<Rightarrow> s)"
| "dispatch s (ImageMouseDown now e imageId) = handleImageMouseDown now e imageId s"
| "dispatch s (CanvasMouseDown e) = handleCanvasMouseDown e s"
| "dispatch s (MouseMove e canvasElement) = handleMouseMove e canvasElement s"
| "dispatch s MouseUp = handleMouseUp s"
| "dispatch s (Wheel e) = handleWheel e s"
| "dispatch s (RemoveImage i) = removeImage i s"
| "dispatch s ResetImagePositions = resetImagePositions s"
| "dispatch s ResetZoom = resetZoom s"
| "dispatch s DeleteSelectedImages = deleteSelectedImages s"

definition run :: "state \<Rightarrow> event list \<Rightarrow> state" where
  "run s evs = foldl dispatch s evs"

text \<open>
  The images are the only place an image id can be pressed or deleted from: the
  \<open>onMouseDown\<close> of an image and its delete button exist only while the image is rendered.
  A load that is outside the model (\<open>addImage\<close> gives \<open>None\<close>) is not a step of a run.
\<close>

fun enabled :: "state \<Rightarrow> event \<Rightarrow> bool" where
  "enabled s (ImageMouseDown now e imageId) = (imageId \<in> id' ` set (images s))"
| "enabled s (RemoveImage i) = (i \<in> id' ` set (images s))"
| "enabled s (AddImage loaded f dropX dropY) = (addImage loaded f dropX dropY s \<noteq> None)"
| "enabled s _ = True"

text \<open>
  A run in which every press and every removal names an image that is on the canvas and
  every load is inside the model.
\<close>

fun valid_run :: "state \<Rightarrow> event list \<Rightarrow> bool" where
  "valid_run s [] = True"
| "valid_run s (ev # evs) = (enabled s ev \<and> valid_run (dispatch s ev) evs)"

text \<open>No dangling reference: every selected id is the id of an image on the canvas.\<close>

definition selection_ok :: "state \<Rightarrow> bool" where
  "selection_ok s = (selectedImages s \<subseteq> id' ` set (images s))"

subsection \<open>The inverse transform of the specification\<close>

text \<open>
  The source never maps a canvas point back to a pointer position. The round trip of the
  specification is stated against its formula
  \<^verbatim>\<open>pointer = (canvas - viewportCenter + pan) * zoom + viewportCenter\<close>,
  written here per axis; \<open>toCanvasSpace\<close> above is the formula of the specification for the
  forward direction, and \<open>canvasPointX\<close>, \<open>canvasPointY\<close> are the source.
\<close>

definition toPointerSpace :: "rat \<Rightarrow> rat \<Rightarrow> rat \<Rightarrow> rat \<Rightarrow> rat" where
  "toPointerSpace canvas center zoom pan = (canvas - center + pan) * zoom + center"

section \<open>Concrete inputs\<close>

text \<open>A PNG file, and what the browser reports for it at clock reading \<open>t\<close> with draw \<open>r\<close>.\<close>

definition png :: File where
  "png = \<lparr>file_name = ''shot.png'', file_size = 2048, file_type = ''image/png''\<rparr>"

definition decoded :: "nat \<Rightarrow> rat \<Rightarrow> LoadEnv" where
  "decoded t r =
     \<lparr>img_width = 400, img_height = 200, result = ''data:image/png;base64,iVBORw0KGgo='',
      innerWidth = 1280, innerHeight = 720, random_x = 1 / 2, random_y = 1 / 4,
      now_id = t, random_id = r, now_name = t, date_string = ''2025. 11. 3.'',
      now_zIndex = t\<rparr>"

definition viewport :: DOMRect where
  "viewport = \<lparr>rect_left = 0, rect_top = 0, rect_width = 1280, rect_height = 720\<rparr>"

text \<open>A primary-button event at a client position, without and with the control key.\<close>

definition mouse :: "rat \<Rightarrow> rat \<Rightarrow> MouseEvent" where
  "mouse px py =
     \<lparr>clientX = px, clientY = py, button = 0, ctrlKey = False, metaKey = False,
      targetIsCurrentTarget = True, currentTargetRect = viewport\<rparr>"

definition ctrl_mouse :: "rat \<Rightarrow> rat \<Rightarrow> MouseEvent" where
  "ctrl_mouse px py = (mouse px py)\<lparr>ctrlKey := True\<rparr>"

text \<open>An image of the given id, position, size and stacking order.\<close>

definition item :: "rat \<Rightarrow> rat \<Rightarrow> rat \<Rightarrow> rat \<Rightarrow> rat \<Rightarrow> rat \<Rightarrow> ImageItem" where
  "item i px py w h z =
     \<lparr>x = px, y = py, id' = i, file' = png, src = ''data:image/png;base64,iVBORw0KGgo='',
      name = ''shot.png'', size' = 2048, type' = ''image/png'', uploadedAt = ''2025. 11. 3.'',
      width = w, height = h, originalWidth = 400, originalHeight = 200, zIndex = z\<rparr>"

text \<open>The clock reading of 3 November 2025, 08:00 UTC, in milliseconds.\<close>

definition t0 :: nat where
  "t0 = 1762156800000"

text \<open>Five images scattered over the canvas, the third and the fifth selected.\<close>

definition five_images :: state where
  "five_images =
     initial\<lparr>images := [item 1 300 410 200 100 10, item 2 12 640 200 100 20,
                         item 3 77 105 100 200 30, item 4 900 333 200 150 40,
                         item 5 641 207 200 200 50],
             selectedImages := {3, 5}\<rparr>"

text \<open>
  A rubber band from \<open>(0,0)\<close> to \<open>(60,60)\<close> over three images whose centres are \<open>(10,10)\<close>,
  \<open>(50,50)\<close> and \<open>(200,200)\<close>, with a stale selection of the third.
\<close>

definition band_state :: state where
  "band_state =
     initial\<lparr>images := [item 1 0 0 20 20 10, item 2 40 40 20 20 20, item 3 190 190 20 20 30],
             selectedImages := {3},
             isSelecting := True,
             selectionBox := \<lparr>startX = 0, startY = 0, endX = 60, endY = 60\<rparr>\<rparr>"

text \<open>A single drag of the second of three images, at zoom 2, last seen at \<open>(100, 100)\<close>.\<close>

definition drag_state :: state where
  "drag_state =
     initial\<lparr>images := [item 1 0 0 20 20 10, item 2 40 40 20 20 40, item 3 190 190 20 20 30],
             selectedImage := Some 2,
             selectedImages := {2},
             isDraggingImage := True,
             dragOffset := \<lparr>x = 100, y = 100\<rparr>,
             zoomLevel := 2\<rparr>"

text \<open>
  Three images pasted within the same millisecond; the draws of \<open>Math.random()\<close> are
  \<open>0.75\<close>, \<open>0.25\<close> and \<open>0.25 + 2^-14\<close>.
\<close>

definition paste_run :: "event list" where
  "paste_run =
     [AddImage (Some (decoded t0 (3 / 4))) png (Some 400) (Some 300),
      AddImage (Some (decoded t0 (1 / 4))) png (Some 400) (Some 300),
      AddImage (Some (decoded t0 (4097 / 16384))) png (Some 400) (Some 300)]"

definition three_pastes :: state where
  "three_pastes = run initial paste_run"

text \<open>
  Two files dropped together at \<open>(400, 300)\<close>, the second placed 20 pixels further as
  \<open>handleDrop\<close> does, and decoded within the same millisecond with the draws \<open>0.5\<close> and
  \<open>0.5 + 2^-14\<close>; then a press on the second image.
\<close>

definition twin_run :: "event list" where
  "twin_run =
     [AddImage (Some (decoded t0 (1 / 2))) png (Some 400) (Some 300),
      AddImage (Some (decoded t0 (8193 / 16384))) png (Some 420) (Some 320),
      ImageMouseDown (t0 + 1000) (mouse 420 320) (of_nat t0 + 1 / 2)]"

definition twin_state :: state where
  "twin_state = run initial twin_run"

text \<open>
  One image is added, pressed (which selects it), released, and deleted with its delete
  button.
\<close>

definition delete_run :: "event list" where
  "delete_run =
     [AddImage (Some (decoded t0 (1 / 2))) png None None,
      ImageMouseDown (t0 + 1000) (mouse 640 330) (of_nat t0 + 1 / 2),
      MouseUp,
      RemoveImage (of_nat t0 + 1 / 2)]"

text \<open>
  Four images A, B, C, D are dropped side by side, one second apart. C is pressed, D is added to the
  selection with the control key, and the pair is pressed for a group drag. Then A is
  pressed alone, which brings it to the front, and B is added to the selection with the
  control key. The state is the one in which a press on A starts a group drag of A and B.
\<close>

definition idA :: rat where "idA = of_nat t0 + 1 / 2"
definition idB :: rat where "idB = of_nat (t0 + 1000) + 1 / 4"
definition idC :: rat where "idC = of_nat (t0 + 2000) + 1 / 2"
definition idD :: rat where "idD = of_nat (t0 + 3000) + 1 / 2"

definition group_run :: "event list" where
  "group_run =
     [AddImage (Some (decoded t0 (1 / 2))) png (Some 200) (Some 300),
      AddImage (Some (decoded (t0 + 1000) (1 / 4))) png (Some 500) (Some 300),
      AddImage (Some (decoded (t0 + 2000) (1 / 2))) png (Some 800) (Some 300),
      AddImage (Some (decoded (t0 + 3000) (1 / 2))) png (Some 1100) (Some 300),
      ImageMouseDown (t0 + 4000) (mouse 800 300) idC,
      MouseUp,
      ImageMouseDown (t0 + 4500) (ctrl_mouse 1100 300) idD,
      ImageMouseDown (t0 + 5000) (mouse 800 300) idC,
      MouseUp,
      ImageMouseDown (t0 + 5500) (mouse 200 300) idA,
      MouseUp,
      ImageMouseDown (t0 + 5600) (ctrl_mouse 500 300) idB]"

definition group_state :: state where
  "group_state = run initial group_run"

section \<open>Properties\<close>

subsection \<open>Rounding\<close>

text \<open>
  The spacing \<open>ulp q\<close> is a power of two times the smallest subnormal number, and \<open>q\<close> lies
  in the binade of that spacing. Rounding is monotone and leaves the natural numbers below
  \<open>2^53\<close> as they are.
\<close>

lemma min_subnormal_pos: "0 < min_subnormal"
  by (simp add: min_subnormal_def)

lemma one_as_grid: "(1::rat) = 2 ^ 1074 * min_subnormal"
  by (simp add: min_subnormal_def)

lemma scale_down_props:
  "u = 2 ^ n0 * min_subnormal \<Longrightarrow> q < 2 ^ 53 * u \<Longrightarrow>
     \<exists>n \<le> n0. scale_down q u = 2 ^ n * min_subnormal
            \<and> q < 2 ^ 53 * scale_down q u
            \<and> (0 < n \<longrightarrow> 2 ^ 52 * scale_down q u \<le> q)"
proof (induction q u arbitrary: n0 rule: scale_down.induct)
  case (1 q u)
  show ?case
  proof (cases "min_subnormal < u \<and> q < 2 ^ 52 * u")
    case True
    with 1(2) min_subnormal_pos have "(1::rat) < 2 ^ n0" by simp
    then have pos: "0 < n0" by (cases n0) simp_all
    then obtain k where k: "n0 = Suc k" by (cases n0) simp_all
    with 1(2) have half: "u / 2 = 2 ^ k * min_subnormal" by simp
    from True have lt: "q < 2 ^ 53 * (u / 2)" by simp
    from "1.IH" [OF True half lt] obtain n where
      n: "n \<le> k" "scale_down q (u / 2) = 2 ^ n * min_subnormal"
         "q < 2 ^ 53 * scale_down q (u / 2)"
         "0 < n \<longrightarrow> 2 ^ 52 * scale_down q (u / 2) \<le> q"
      by blast
    have eq: "scale_down q u = scale_down q (u / 2)"
      by (subst scale_down.simps) (rule if_P, rule True)
    from n k show ?thesis unfolding eq by (intro exI [of _ n]) simp
  next
    case False
    have eq: "scale_down q u = u"
      by (subst scale_down.simps) (rule if_not_P, rule False)
    have "0 < n0 \<longrightarrow> 2 ^ 52 * u \<le> q"
    proof
      assume "0 < n0"
      then have "(1::rat) < 2 ^ n0" by (intro one_less_power) simp_all
      with min_subnormal_pos 1(2) have "min_subnormal < u" by simp
      with False show "2 ^ 52 * u \<le> q" by simp
    qed
    with 1(2,3) show ?thesis unfolding eq by (intro exI [of _ n0]) simp
  qed
qed

lemma scale_up_props:
  "u = 2 ^ n0 * min_subnormal \<Longrightarrow> 2 ^ 52 * u \<le> q \<Longrightarrow>
     \<exists>n \<ge> n0. scale_up q u = 2 ^ n * min_subnormal
            \<and> q < 2 ^ 53 * scale_up q u
            \<and> 2 ^ 52 * scale_up q u \<le> q"
proof (induction q u arbitrary: n0 rule: scale_up.induct)
  case (1 q u)
  from 1(2) min_subnormal_pos have upos: "0 < u" by simp
  show ?case
  proof (cases "0 < u \<and> 2 ^ 53 * u \<le> q")
    case True
    from 1(2) have dbl: "2 * u = 2 ^ Suc n0 * min_subnormal" by simp
    from True have le: "2 ^ 52 * (2 * u) \<le> q" by simp
    from "1.IH" [OF True dbl le] obtain n where
      n: "Suc n0 \<le> n" "scale_up q (2 * u) = 2 ^ n * min_subnormal"
         "q < 2 ^ 53 * scale_up q (2 * u)"
         "2 ^ 52 * scale_up q (2 * u) \<le> q"
      by blast
    have eq: "scale_up q u = scale_up q (2 * u)"
      by (subst scale_up.simps) (rule if_P, rule True)
    from n show ?thesis unfolding eq by (intro exI [of _ n]) simp
  next
    case False
    have eq: "scale_up q u = u"
      by (subst scale_up.simps) (rule if_not_P, rule False)
    from False upos have "q < 2 ^ 53 * u" by simp
    with 1(2,3) show ?thesis unfolding eq by (intro exI [of _ n0]) simp
  qed
qed

lemma ulp_props:
  assumes "0 < q"
  shows "\<exists>n. ulp q = 2 ^ n * min_subnormal \<and> q < 2 ^ 53 * ulp q
            \<and> (0 < n \<longrightarrow> 2 ^ 52 * ulp q \<le> q)"
proof (cases "2 ^ 53 \<le> q")
  case True
  then have "2 ^ 52 * (1::rat) \<le> q" by simp
  from scale_up_props [OF one_as_grid this] True show ?thesis
    by (auto simp: ulp_def)
next
  case False
  then have "q < 2 ^ 53 * (1::rat)" by simp
  from scale_down_props [OF one_as_grid this] False show ?thesis
    by (auto simp: ulp_def)
qed

lemma ulp_pos: "0 < q \<Longrightarrow> 0 < ulp q"
  using ulp_props [of q] min_subnormal_pos by auto

lemma round_half_even_cases:
  "round_half_even t = \<lfloor>t\<rfloor> \<or> (round_half_even t = \<lfloor>t\<rfloor> + 1 \<and> of_int \<lfloor>t\<rfloor> < t)"
  by (auto simp: round_half_even_def Let_def)

lemma round_half_even_of_int: "round_half_even (of_int k) = k"
  by (simp add: round_half_even_def)

lemma round_half_even_ge: "of_int k \<le> t \<Longrightarrow> k \<le> round_half_even t"
proof -
  assume "of_int k \<le> t"
  then have "k \<le> \<lfloor>t\<rfloor>" by (simp only: le_floor_iff)
  with round_half_even_cases [of t] show ?thesis by auto
qed

lemma round_half_even_le: "t \<le> of_int k \<Longrightarrow> round_half_even t \<le> k"
proof -
  assume a: "t \<le> of_int k"
  then have f: "\<lfloor>t\<rfloor> \<le> k" by (simp add: floor_le_iff)
  from round_half_even_cases [of t] show ?thesis
  proof
    assume "round_half_even t = \<lfloor>t\<rfloor>"
    with f show ?thesis by simp
  next
    assume b: "round_half_even t = \<lfloor>t\<rfloor> + 1 \<and> of_int \<lfloor>t\<rfloor> < t"
    with a have "(of_int \<lfloor>t\<rfloor> :: rat) < of_int k" by linarith
    then have "\<lfloor>t\<rfloor> < k" by simp
    with b show ?thesis by simp
  qed
qed

lemma round_half_even_mono: "s \<le> t \<Longrightarrow> round_half_even s \<le> round_half_even t"
proof -
  assume st: "s \<le> t"
  then have fl: "\<lfloor>s\<rfloor> \<le> \<lfloor>t\<rfloor>" by (rule floor_mono)
  show ?thesis
  proof (cases "\<lfloor>s\<rfloor> = \<lfloor>t\<rfloor>")
    case True
    with st show ?thesis by (auto simp: round_half_even_def Let_def)
  next
    case False
    with fl have "\<lfloor>s\<rfloor> + 1 \<le> \<lfloor>t\<rfloor>" by simp
    moreover from round_half_even_cases [of s] have "round_half_even s \<le> \<lfloor>s\<rfloor> + 1" by auto
    moreover from round_half_even_cases [of t] have "\<lfloor>t\<rfloor> \<le> round_half_even t" by auto
    ultimately show ?thesis by linarith
  qed
qed

lemma fl_pos: "0 < q \<Longrightarrow> fl q = ulp q * of_int (round_half_even (q / ulp q))"
  by (simp add: fl_def)

lemma fl_pos_ge:
  assumes "0 < q" and "ulp q * of_int k \<le> q"
  shows "ulp q * of_int k \<le> fl q"
proof -
  from assms(1) have u: "0 < ulp q" by (rule ulp_pos)
  with assms(2) have "of_int k \<le> q / ulp q" by (simp add: pos_le_divide_eq mult.commute)
  then have "k \<le> round_half_even (q / ulp q)" by (rule round_half_even_ge)
  then have "(of_int k :: rat) \<le> of_int (round_half_even (q / ulp q))" by simp
  with u show ?thesis by (simp add: fl_pos [OF assms(1)])
qed

lemma fl_pos_le:
  assumes "0 < q" and "q \<le> ulp q * of_int k"
  shows "fl q \<le> ulp q * of_int k"
proof -
  from assms(1) have u: "0 < ulp q" by (rule ulp_pos)
  with assms(2) have "q / ulp q \<le> of_int k" by (simp add: pos_divide_le_eq mult.commute)
  then have "round_half_even (q / ulp q) \<le> k" by (rule round_half_even_le)
  then have "(of_int (round_half_even (q / ulp q)) :: rat) \<le> of_int k" by simp
  with u show ?thesis by (simp add: fl_pos [OF assms(1)])
qed

lemma fl_mono_pos:
  assumes "0 < q1" and "q1 \<le> q2"
  shows "fl q1 \<le> fl q2"
proof -
  from assms have q2: "0 < q2" by simp
  from ulp_props [OF assms(1)] obtain n1 where
    n1: "ulp q1 = 2 ^ n1 * min_subnormal" "q1 < 2 ^ 53 * ulp q1"
        "0 < n1 \<longrightarrow> 2 ^ 52 * ulp q1 \<le> q1"
    by blast
  from ulp_props [OF q2] obtain n2 where
    n2: "ulp q2 = 2 ^ n2 * min_subnormal" "q2 < 2 ^ 53 * ulp q2"
        "0 < n2 \<longrightarrow> 2 ^ 52 * ulp q2 \<le> q2"
    by blast
  note m = min_subnormal_pos
  show ?thesis
  proof (cases n1 n2 rule: linorder_cases)
    case equal
    with n1(1) n2(1) have u: "ulp q2 = ulp q1" by simp
    from assms(1) have up: "0 < ulp q1" by (rule ulp_pos)
    with assms(2) have "q1 / ulp q1 \<le> q2 / ulp q1" by (simp add: divide_right_mono)
    then have "round_half_even (q1 / ulp q1) \<le> round_half_even (q2 / ulp q1)"
      by (rule round_half_even_mono)
    then have "(of_int (round_half_even (q1 / ulp q1)) :: rat)
                 \<le> of_int (round_half_even (q2 / ulp q1))" by simp
    with up have "ulp q1 * of_int (round_half_even (q1 / ulp q1))
                 \<le> ulp q1 * of_int (round_half_even (q2 / ulp q1))"
      by (simp only: mult_le_cancel_left_pos)
    then show ?thesis by (simp only: fl_pos [OF assms(1)] fl_pos [OF q2] u)
  next
    case less
    define d where "d = n2 - n1"
    from less have n2d: "n2 = n1 + d" and d: "0 < d" by (simp_all add: d_def)
    define v where "v = 2 ^ 52 * ulp q2"
    have v2: "v = ulp q2 * of_int (2 ^ 52)" by (simp add: v_def)
    have v1: "v = ulp q1 * of_int (2 ^ 52 * 2 ^ d)"
      by (simp add: v_def n1(1) n2(1) n2d power_add)
    from d have "(2::rat) \<le> 2 ^ d"
      using power_increasing [of 1 d "2::rat"] by simp
    then have "2 * ulp q1 \<le> 2 ^ d * ulp q1"
      using ulp_pos [OF assms(1)] by (simp only: mult_le_cancel_right_pos)
    then have "2 ^ 52 * (2 * ulp q1) \<le> 2 ^ 52 * (2 ^ d * ulp q1)"
      by (rule mult_left_mono) simp
    moreover have "2 ^ 52 * (2 * ulp q1) = 2 ^ 53 * ulp q1" by simp
    moreover have "2 ^ 52 * (2 ^ d * ulp q1) = v"
      by (simp only: v_def n1(1) n2(1) n2d power_add ac_simps)
    ultimately have "2 ^ 53 * ulp q1 \<le> v" by (simp only:)
    with n1(2) have le1: "q1 \<le> v" by simp
    from less n2(3) have le2: "v \<le> q2" by (simp add: v_def)
    from le1 have "fl q1 \<le> v" unfolding v1 by (rule fl_pos_le [OF assms(1)])
    moreover from le2 have "v \<le> fl q2" unfolding v2 by (rule fl_pos_ge [OF q2])
    ultimately show ?thesis by simp
  next
    case greater
    define d where "d = n1 - n2"
    from greater have n1d: "n1 = n2 + d" and d: "0 < d" by (simp_all add: d_def)
    from d have "(2::rat) \<le> 2 ^ d"
      using power_increasing [of 1 d "2::rat"] by simp
    then have "2 * ulp q2 \<le> 2 ^ d * ulp q2"
      using ulp_pos [OF q2] by (simp only: mult_le_cancel_right_pos)
    then have "2 ^ 52 * (2 * ulp q2) \<le> 2 ^ 52 * (2 ^ d * ulp q2)"
      by (rule mult_left_mono) simp
    moreover have "2 ^ 52 * (2 * ulp q2) = 2 ^ 53 * ulp q2" by simp
    moreover have "2 ^ 52 * (2 ^ d * ulp q2) = 2 ^ 52 * ulp q1"
      by (simp only: n1(1) n2(1) n1d power_add ac_simps)
    ultimately have "2 ^ 53 * ulp q2 \<le> 2 ^ 52 * ulp q1" by (simp only:)
    moreover from greater n1(3) have "2 ^ 52 * ulp q1 \<le> q1" by simp
    ultimately have "q2 < q1" using n2(2) by simp
    with assms(2) show ?thesis by simp
  qed
qed

lemma fl_zero: "fl 0 = 0"
  by (simp add: fl_def)

lemma fl_neg: "q < 0 \<Longrightarrow> fl q = - fl (- q)"
  by (simp add: fl_def)

lemma fl_nonneg: "0 \<le> q \<Longrightarrow> 0 \<le> fl q"
proof (cases "q = 0")
  case True
  then show ?thesis by (simp add: fl_zero)
next
  case False
  assume "0 \<le> q"
  with False have q: "0 < q" by simp
  from fl_pos_ge [OF q, of 0] q show ?thesis by simp
qed

lemma fl_mono:
  assumes "q1 \<le> q2"
  shows "fl q1 \<le> fl q2"
proof (cases "0 < q1")
  case True
  from this assms show ?thesis by (rule fl_mono_pos)
next
  case False
  show ?thesis
  proof (cases "0 \<le> q2")
    case True
    then have a: "0 \<le> fl q2" by (rule fl_nonneg)
    have "fl q1 \<le> 0"
    proof (cases "q1 = 0")
      case True
      then show ?thesis by (simp add: fl_zero)
    next
      case False
      with \<open>\<not> 0 < q1\<close> have n: "q1 < 0" by simp
      then have "0 \<le> fl (- q1)" by (intro fl_nonneg) simp
      with n show ?thesis by (simp add: fl_neg)
    qed
    with a show ?thesis by simp
  next
    case False
    then have n2: "q2 < 0" by simp
    with assms have n1: "q1 < 0" by simp
    from n2 assms have "fl (- q2) \<le> fl (- q1)" by (intro fl_mono_pos) simp_all
    with n1 n2 show ?thesis by (simp add: fl_neg)
  qed
qed

lemma grid_two: "2 ^ 1075 * min_subnormal = 2"
  by (simp add: min_subnormal_def)

lemma fl_of_nat:
  assumes "n < 2 ^ 53"
  shows "fl (of_nat n) = of_nat n"
proof (cases "n = 0")
  case True
  then show ?thesis by (simp add: fl_zero)
next
  case False
  then have q: "0 < (of_nat n :: rat)" by simp
  from ulp_props [OF q] obtain k where
    k: "ulp (of_nat n) = 2 ^ k * min_subnormal"
       "0 < k \<longrightarrow> 2 ^ 52 * ulp (of_nat n) \<le> of_nat n"
    by blast
  from assms have lt: "(of_nat n :: rat) < 2 ^ 53"
    by (metis of_nat_less_iff of_nat_numeral of_nat_power)
  have kle: "k \<le> 1074"
  proof (rule ccontr)
    assume "\<not> k \<le> 1074"
    then have k5: "1075 \<le> k" by simp
    then have "(2::rat) ^ 1075 \<le> 2 ^ k" by (intro power_increasing) simp_all
    then have "2 ^ 1075 * min_subnormal \<le> 2 ^ k * min_subnormal"
      using min_subnormal_pos by (simp only: mult_le_cancel_right_pos)
    then have "2 \<le> ulp (of_nat n)" by (simp only: grid_two k(1))
    moreover from k5 k(2) have "2 ^ 52 * ulp (of_nat n) \<le> of_nat n" by simp
    ultimately have "(2 ^ 53 :: rat) \<le> of_nat n" by simp
    with lt show False by simp
  qed
  define d where "d = 1074 - k"
  from kle have "1074 = k + d" by (simp add: d_def)
  then have "(2::rat) ^ 1074 = 2 ^ k * 2 ^ d" by (simp only: power_add)
  with one_as_grid have one: "ulp (of_nat n) * 2 ^ d = 1"
    by (simp add: k(1) mult.assoc mult.commute mult.left_commute)
  have "ulp (of_nat n) * of_int (int n * 2 ^ d) = (ulp (of_nat n) * 2 ^ d) * of_nat n"
    by simp
  with one have rep: "ulp (of_nat n) * of_int (int n * 2 ^ d) = of_nat n" by simp
  from fl_pos_ge [OF q, of "int n * 2 ^ d"] fl_pos_le [OF q, of "int n * 2 ^ d"]
  show ?thesis unfolding rep by simp
qed

text \<open>
  The spacing is determined by the binade; around a clock reading of this century it is
  \<open>2^-12\<close>, and \<open>2^-11\<close> around the sum of two. With these two facts \<open>fl\<close> is evaluated at
  a numeral without running the search.
\<close>

lemma ulp_unique:
  assumes "0 < k" and "u = 2 ^ k * min_subnormal" and "2 ^ 52 * u \<le> q" and "q < 2 ^ 53 * u"
  shows "ulp q = u"
proof -
  from assms(2) min_subnormal_pos have u: "0 < u" by simp
  with assms(3) have q: "0 < q"
    by (meson less_le_trans mult_pos_pos zero_less_numeral zero_less_power)
  from ulp_props [OF q] obtain n where
    n: "ulp q = 2 ^ n * min_subnormal" "q < 2 ^ 53 * ulp q"
       "0 < n \<longrightarrow> 2 ^ 52 * ulp q \<le> q"
    by blast
  have up: "0 < ulp q" using q by (rule ulp_pos)
  show ?thesis
  proof (cases n k rule: linorder_cases)
    case equal
    with n(1) assms(2) show ?thesis by simp
  next
    case less
    define d where "d = k - n"
    from less have kd: "k = n + d" and d: "0 < d" by (simp_all add: d_def)
    from d have "(2::rat) \<le> 2 ^ d"
      using power_increasing [of 1 d "2::rat"] by simp
    then have "2 * ulp q \<le> 2 ^ d * ulp q"
      using up by (simp only: mult_le_cancel_right_pos)
    then have "2 ^ 52 * (2 * ulp q) \<le> 2 ^ 52 * (2 ^ d * ulp q)"
      by (rule mult_left_mono) simp
    moreover have "2 ^ 52 * (2 * ulp q) = 2 ^ 53 * ulp q" by simp
    moreover have "2 ^ 52 * (2 ^ d * ulp q) = 2 ^ 52 * u"
      by (simp only: n(1) assms(2) kd power_add ac_simps)
    ultimately have "2 ^ 53 * ulp q \<le> 2 ^ 52 * u" by (simp only:)
    with assms(3) n(2) show ?thesis by simp
  next
    case greater
    define d where "d = n - k"
    from greater have nd: "n = k + d" and d: "0 < d" by (simp_all add: d_def)
    from d have "(2::rat) \<le> 2 ^ d"
      using power_increasing [of 1 d "2::rat"] by simp
    then have "2 * u \<le> 2 ^ d * u"
      using u by (simp only: mult_le_cancel_right_pos)
    then have "2 ^ 52 * (2 * u) \<le> 2 ^ 52 * (2 ^ d * u)"
      by (rule mult_left_mono) simp
    moreover have "2 ^ 52 * (2 * u) = 2 ^ 53 * u" by simp
    moreover have "2 ^ 52 * (2 ^ d * u) = 2 ^ 52 * ulp q"
      by (simp only: n(1) assms(2) nd power_add ac_simps)
    ultimately have "2 ^ 53 * u \<le> 2 ^ 52 * ulp q" by (simp only:)
    moreover from greater assms(1) n(3) have "2 ^ 52 * ulp q \<le> q" by simp
    ultimately show ?thesis using assms(4) by simp
  qed
qed

lemma ulp_41: "2 ^ 40 \<le> q \<Longrightarrow> q < 2 ^ 41 \<Longrightarrow> ulp q = 1 / 4096"
  by (rule ulp_unique [of 1062]) (simp_all add: min_subnormal_def)

lemma ulp_42: "2 ^ 41 \<le> q \<Longrightarrow> q < 2 ^ 42 \<Longrightarrow> ulp q = 1 / 2048"
  by (rule ulp_unique [of 1063]) (simp_all add: min_subnormal_def)

lemma floor_rat_numeral:
  "\<lfloor>numeral a / numeral b :: rat\<rfloor> = numeral a div numeral b"
proof -
  have "\<lfloor>(of_int (numeral a) :: rat) / of_int (numeral b)\<rfloor> = numeral a div numeral b"
    by (rule floor_divide_of_int_eq)
  then show ?thesis by simp
qed


lemmas fl_eval = fl_def ulp_41 ulp_42 round_half_even_def Let_def floor_rat_numeral

subsection \<open>Runs\<close>

text \<open>The definitions a concrete run unfolds to.\<close>

lemmas scenario_defs =
  run_def addImage_def placeImage_def js_divide_def handleImageMouseDown_def handleMouseUp_def
  removeImage_def startsWith_def png_def decoded_def mouse_def ctrl_mouse_def viewport_def
  initial_def t0_def fl_eval

text \<open>A load leaves the state as it is or appends one image.\<close>

lemma dispatch_AddImage:
  "dispatch s (AddImage loaded f dx dy) = s
   \<or> (\<exists>img. dispatch s (AddImage loaded f dx dy) = s\<lparr>images := images s @ [img]\<rparr>)"
  by (auto simp: addImage_def placeImage_def Let_def split: option.split quotient.split)

lemma run_Nil: "run s [] = s"
  by (simp add: run_def)

lemma run_Cons: "run s (ev # evs) = run (dispatch s ev) evs"
  by (simp add: run_def)

lemma run_snoc: "run s (evs @ [ev]) = dispatch (run s evs) ev"
  by (simp add: run_def)

subsection \<open>Zoom\<close>

lemma handleWheel_zoom:
  "zoomLevel (handleWheel e s) =
     max (1 / 10) (min 3 (zoomLevel s + (if deltaY e > 0 then - (1 / 10) else 1 / 10)))"
  by (simp add: handleWheel_def Let_def)

lemma handleWheel_range:
  "1 / 10 \<le> zoomLevel (handleWheel e s) \<and> zoomLevel (handleWheel e s) \<le> 3"
  by (simp add: handleWheel_zoom)

lemma run_wheels_range:
  assumes "1 / 10 \<le> zoomLevel s" and "zoomLevel s \<le> 3"
  shows "1 / 10 \<le> zoomLevel (run s (map Wheel ws)) \<and> zoomLevel (run s (map Wheel ws)) \<le> 3"
proof (cases ws rule: rev_cases)
  case Nil
  with assms show ?thesis by (simp add: run_Nil)
next
  case (snoc vs w)
  with handleWheel_range [of w "run s (map Wheel vs)"] show ?thesis
    by (simp add: run_snoc)
qed

text \<open>
  Claim C4. From a zoom level in \<open>[0.1, 3.0]\<close>, along any sequence of wheel events, the zoom
  after each event is the zoom before it plus or minus the fixed step \<open>0.1\<close> (minus when
  \<open>deltaY > 0\<close>), clamped into \<open>[0.1, 3.0]\<close>; so after any number of events the zoom is
  within \<open>[0.1, 3.0]\<close> and in particular positive.
\<close>

theorem zoom_wheel_clamped:
  assumes "1 / 10 \<le> zoomLevel s" and "zoomLevel s \<le> 3"
  shows "(\<forall>k < length ws.
            zoomLevel (run s (map Wheel (take (Suc k) ws))) =
              max (1 / 10) (min 3 (zoomLevel (run s (map Wheel (take k ws)))
                                   + (if deltaY (ws ! k) > 0 then - (1 / 10) else 1 / 10))))
       \<and> (\<forall>k \<le> length ws.
            1 / 10 \<le> zoomLevel (run s (map Wheel (take k ws)))
          \<and> zoomLevel (run s (map Wheel (take k ws))) \<le> 3
          \<and> 0 < zoomLevel (run s (map Wheel (take k ws))))"
proof (intro conjI allI impI)
  fix k assume "k < length ws"
  then have "take (Suc k) ws = take k ws @ [ws ! k]"
    by (simp add: take_Suc_conv_app_nth)
  then show "zoomLevel (run s (map Wheel (take (Suc k) ws))) =
              max (1 / 10) (min 3 (zoomLevel (run s (map Wheel (take k ws)))
                                   + (if deltaY (ws ! k) > 0 then - (1 / 10) else 1 / 10)))"
    by (simp add: run_snoc handleWheel_zoom)
next
  fix k
  from run_wheels_range [OF assms, of "take k ws"]
  show "1 / 10 \<le> zoomLevel (run s (map Wheel (take k ws)))" by simp
next
  fix k
  from run_wheels_range [OF assms, of "take k ws"]
  show "zoomLevel (run s (map Wheel (take k ws))) \<le> 3" by simp
next
  fix k
  from run_wheels_range [OF assms, of "take k ws"]
  have "1 / 10 \<le> zoomLevel (run s (map Wheel (take k ws)))" by simp
  then show "0 < zoomLevel (run s (map Wheel (take k ws)))" by linarith
qed

theorem zoom_wheel_clamped_witness:
  "1 / 10 \<le> zoomLevel initial \<and> zoomLevel initial \<le> 3
   \<and> zoomLevel (run initial (map Wheel (take (Suc 1) [\<lparr>deltaY = -120\<rparr>, \<lparr>deltaY = 120\<rparr>]))) =
       max (1 / 10) (min 3 (zoomLevel (run initial (map Wheel (take 1 [\<lparr>deltaY = -120\<rparr>, \<lparr>deltaY = 120\<rparr>])))
                            + (if deltaY ([\<lparr>deltaY = -120\<rparr>, \<lparr>deltaY = 120\<rparr>] ! 1) > 0 then - (1 / 10) else 1 / 10)))
   \<and> zoomLevel (run initial (map Wheel [\<lparr>deltaY = -120\<rparr>])) = 11 / 10
   \<and> zoomLevel (run initial (map Wheel [\<lparr>deltaY = -120\<rparr>, \<lparr>deltaY = 120\<rparr>])) = 1"
proof -
  have h1: "1 / 10 \<le> zoomLevel initial" by (simp add: initial_def)
  have h2: "zoomLevel initial \<le> 3" by (simp add: initial_def)
  from zoom_wheel_clamped [OF h1 h2, of "[\<lparr>deltaY = -120\<rparr>, \<lparr>deltaY = 120\<rparr>]"]
  have step: "\<forall>k < length [\<lparr>deltaY = -120\<rparr>, \<lparr>deltaY = 120::rat\<rparr>].
            zoomLevel (run initial (map Wheel (take (Suc k) [\<lparr>deltaY = -120\<rparr>, \<lparr>deltaY = 120\<rparr>]))) =
              max (1 / 10) (min 3 (zoomLevel (run initial (map Wheel (take k [\<lparr>deltaY = -120\<rparr>, \<lparr>deltaY = 120\<rparr>])))
                                   + (if deltaY ([\<lparr>deltaY = -120\<rparr>, \<lparr>deltaY = 120\<rparr>] ! k) > 0 then - (1 / 10) else 1 / 10)))"
    by (rule conjunct1)
  have s1: "zoomLevel (run initial (map Wheel (take (Suc 1) [\<lparr>deltaY = -120\<rparr>, \<lparr>deltaY = 120\<rparr>]))) =
       max (1 / 10) (min 3 (zoomLevel (run initial (map Wheel (take 1 [\<lparr>deltaY = -120\<rparr>, \<lparr>deltaY = 120\<rparr>])))
                            + (if deltaY ([\<lparr>deltaY = -120\<rparr>, \<lparr>deltaY = 120\<rparr>] ! 1) > 0 then - (1 / 10) else 1 / 10)))"
    by (rule step [rule_format]) simp
  have v1: "zoomLevel (run initial (map Wheel [\<lparr>deltaY = -120\<rparr>])) = 11 / 10"
    by (simp add: run_def handleWheel_def initial_def)
  have v2: "zoomLevel (run initial (map Wheel [\<lparr>deltaY = -120\<rparr>, \<lparr>deltaY = 120\<rparr>])) = 1"
    by (simp add: run_def handleWheel_def initial_def)
  from h1 h2 s1 v1 v2 show ?thesis by blast
qed

text \<open>
  No other handler writes the zoom level except \<open>resetZoom\<close>, which sets it to 1: the
  zoom level of every state the component can reach is within \<open>[0.1, 3.0]\<close>.
\<close>

lemma zoomLevel_unchanged:
  "zoomLevel (handleImageMouseDown now e i s) = zoomLevel s"
  "zoomLevel (handleCanvasMouseDown e s) = zoomLevel s"
  "zoomLevel (handleMouseMove e c s) = zoomLevel s"
  "zoomLevel (handleMouseUp s) = zoomLevel s"
  "zoomLevel (removeImage i s) = zoomLevel s"
  "zoomLevel (resetImagePositions s) = zoomLevel s"
  "zoomLevel (deleteSelectedImages s) = zoomLevel s"
  by (simp_all add: handleImageMouseDown_def handleCanvasMouseDown_def
      handleMouseMove_def handleMouseUp_def removeImage_def resetImagePositions_def
      deleteSelectedImages_def Let_def split: option.split)

lemma zoom_range_step:
  assumes "1 / 10 \<le> zoomLevel s \<and> zoomLevel s \<le> 3"
  shows "1 / 10 \<le> zoomLevel (dispatch s ev) \<and> zoomLevel (dispatch s ev) \<le> 3"
proof (cases ev)
  case (AddImage loaded f dx dy)
  from dispatch_AddImage [of s loaded f dx dy]
  have "zoomLevel (dispatch s (AddImage loaded f dx dy)) = zoomLevel s" by auto
  with assms show ?thesis unfolding AddImage by (simp only:)
next
  case (Wheel e)
  with handleWheel_range [of e s] show ?thesis by simp
next
  case ResetZoom
  then show ?thesis by (simp add: resetZoom_def)
qed (use assms in \<open>simp_all add: zoomLevel_unchanged\<close>)

lemma zoom_range_run:
  "1 / 10 \<le> zoomLevel (run initial evs) \<and> zoomLevel (run initial evs) \<le> 3"
proof (induction evs rule: rev_induct)
  case Nil
  show ?case by (simp add: run_Nil initial_def)
next
  case (snoc ev evs)
  then show ?case unfolding run_snoc by (rule zoom_range_step)
qed

subsection \<open>Removing an image\<close>

text \<open>
  Claim C9. Removing an id that no image of the store carries leaves the state as it is,
  and removing an id twice gives the same state as removing it once.
\<close>

theorem removeImage_unknown_noop_idempotent:
  "(i \<notin> id' ` set (images s) \<longrightarrow> removeImage i s = s)
   \<and> removeImage i (removeImage i s) = removeImage i s"
proof
  show "i \<notin> id' ` set (images s) \<longrightarrow> removeImage i s = s"
  proof
    assume "i \<notin> id' ` set (images s)"
    then have "filter (\<lambda>img. id' img \<noteq> i) (images s) = images s"
      by (auto simp: filter_id_conv)
    then show "removeImage i s = s" by (simp add: removeImage_def)
  qed
  show "removeImage i (removeImage i s) = removeImage i s"
    by (simp add: removeImage_def)
qed

theorem removeImage_unknown_noop_idempotent_witness:
  "7 \<notin> id' ` set (images five_images) \<and> removeImage 7 five_images = five_images
   \<and> removeImage 7 (removeImage 7 five_images) = removeImage 7 five_images"
  using removeImage_unknown_noop_idempotent [of 7 five_images]
  by (simp add: five_images_def item_def)

subsection \<open>Coordinate transform\<close>

lemma canvasPointX_toCanvasSpace:
  "canvasPointX e rect s =
     toCanvasSpace (clientX e - rect_left rect) (rect_width rect / 2) (zoomLevel s) (x (panOffset s))"
  by (simp add: canvasPointX_def toCanvasSpace_def Let_def)

lemma canvasPointY_toCanvasSpace:
  "canvasPointY e rect s =
     toCanvasSpace (clientY e - rect_top rect) (rect_height rect / 2) (zoomLevel s) (y (panOffset s))"
  by (simp add: canvasPointY_def toCanvasSpace_def Let_def)

lemma toPointerSpace_toCanvasSpace:
  "zoom \<noteq> 0 \<Longrightarrow> toPointerSpace (toCanvasSpace p c zoom pan) c zoom pan = p"
  by (simp add: toPointerSpace_def toCanvasSpace_def)

text \<open>
  Claim C7. For every pointer position, every zoom in \<open>{0.1, 1.0, 3.0}\<close> and every pan in
  \<open>{(0,0), (37,-12)}\<close>, mapping the pointer to canvas space (as the source does on each
  axis, and as the formula of the specification does) and then applying the inverse
  formula gives the pointer position back, exactly over the rationals.
\<close>

theorem coordinate_round_trip:
  assumes "zoomLevel s \<in> {1 / 10, 1, 3}"
    and "panOffset s \<in> {\<lparr>x = 0, y = 0\<rparr>, \<lparr>x = 37, y = - 12\<rparr>}"
  shows "toPointerSpace (canvasPointX e rect s) (rect_width rect / 2) (zoomLevel s) (x (panOffset s))
           = clientX e - rect_left rect
       \<and> toPointerSpace (canvasPointY e rect s) (rect_height rect / 2) (zoomLevel s) (y (panOffset s))
           = clientY e - rect_top rect
       \<and> toPointerSpace (toCanvasSpace p c (zoomLevel s) (x (panOffset s))) c (zoomLevel s) (x (panOffset s)) = p
       \<and> toPointerSpace (toCanvasSpace p c (zoomLevel s) (y (panOffset s))) c (zoomLevel s) (y (panOffset s)) = p"
proof -
  from assms(1) have "zoomLevel s \<noteq> 0" by auto
  then show ?thesis
    by (simp add: canvasPointX_toCanvasSpace canvasPointY_toCanvasSpace toPointerSpace_toCanvasSpace)
qed

theorem coordinate_round_trip_witness:
  "zoomLevel (initial\<lparr>zoomLevel := 3, panOffset := \<lparr>x = 37, y = - 12\<rparr>\<rparr>) \<in> {1 / 10, 1, 3}
   \<and> panOffset (initial\<lparr>zoomLevel := 3, panOffset := \<lparr>x = 37, y = - 12\<rparr>\<rparr>)
        \<in> {\<lparr>x = 0, y = 0\<rparr>, \<lparr>x = 37, y = - 12\<rparr>}
   \<and> canvasPointX (mouse 100 50) viewport (initial\<lparr>zoomLevel := 3, panOffset := \<lparr>x = 37, y = - 12\<rparr>\<rparr>) = 423
   \<and> toPointerSpace 423 (rect_width viewport / 2) 3 37 = clientX (mouse 100 50) - rect_left viewport"
proof -
  let ?s = "initial\<lparr>zoomLevel := 3, panOffset := \<lparr>x = 37, y = - 12\<rparr>\<rparr>"
  have h1: "zoomLevel ?s \<in> {1 / 10, 1, 3}" by simp
  have h2: "panOffset ?s \<in> {\<lparr>x = 0, y = 0\<rparr>, \<lparr>x = 37, y = - 12\<rparr>}" by simp
  have v: "canvasPointX (mouse 100 50) viewport ?s = 423"
    by (simp add: canvasPointX_def mouse_def viewport_def Let_def)
  from coordinate_round_trip [OF h1 h2, of "mouse 100 50" viewport] v h1 h2
  show ?thesis by simp
qed

subsection \<open>Grid arrangement\<close>

lemma map_index_from_length: "length (map_index_from k f xs) = length xs"
  by (induction xs arbitrary: k) simp_all

lemma map_index_from_nth:
  "n < length xs \<Longrightarrow> map_index_from k f xs ! n = f (xs ! n) (k + n)"
proof (induction xs arbitrary: k n)
  case Nil
  then show ?case by simp
next
  case (Cons a as)
  then show ?case by (cases n) simp_all
qed

lemma floor_quarter: "\<lfloor>(of_nat k :: rat) / 4\<rfloor> = int (k div 4)"
proof -
  have "\<lfloor>(of_nat k :: rat) / of_nat 4\<rfloor> = int (k div 4)"
    by (rule floor_divide_of_nat_eq)
  then show ?thesis by simp
qed

lemma resetImagePositions_images:
  "images (resetImagePositions s) =
     map_index_from 0 (\<lambda>img k. img\<lparr>x := 50 + of_nat (k mod 4) * 220,
                                    y := 200 + of_nat (k div 4) * 220\<rparr>) (images s)"
  by (simp add: resetImagePositions_def map_index_def floor_quarter)

lemma five_list:
  assumes "length xs = 5"
  obtains a b c d e where "xs = [a, b, c, d, e]"
proof -
  from assms obtain a xs1 where 1: "xs = a # xs1" "length xs1 = 4" by (cases xs) auto
  then obtain b xs2 where 2: "xs1 = b # xs2" "length xs2 = 3" by (cases xs1) auto
  then obtain c xs3 where 3: "xs2 = c # xs3" "length xs3 = 2" by (cases xs2) auto
  then obtain d xs4 where 4: "xs3 = d # xs4" "length xs4 = 1" by (cases xs3) auto
  then obtain e where 5: "xs4 = [e]" by (cases xs4) auto
  from 1 2 3 4 5 that show thesis by simp
qed

lemma map_index_from_five:
  "map_index_from k f [a, b, c, d, e] = [f a k, f b (k + 1), f c (k + 2), f d (k + 3), f e (k + 4)]"
  by (simp add: eval_nat_numeral)

lemma grid5:
  "map (\<lambda>img. (x img, y img))
     (map_index_from 0 (\<lambda>img k. img\<lparr>x := 50 + of_nat (k mod 4) * 220,
                                    y := 200 + of_nat (k div 4) * 220\<rparr>) [a, b, c, d, e :: ImageItem]) =
          [(50, 200), (270, 200), (490, 200), (710, 200), (50, 420)]"
  unfolding map_index_from_five by simp


text \<open>
  Claim C8. The grid arrangement keeps the images and their order, puts the image at index
  \<open>k\<close> at \<open>(50 + (k mod 4) * 220, 200 + (k div 4) * 220)\<close> and changes nothing else of it,
  and empties the selection; five images land at \<open>(50,200)\<close>, \<open>(270,200)\<close>, \<open>(490,200)\<close>,
  \<open>(710,200)\<close>, \<open>(50,420)\<close>. The result is a function of the image list.
\<close>

theorem resetImagePositions_grid:
  "length (images (resetImagePositions s)) = length (images s)
   \<and> (\<forall>k < length (images s).
        images (resetImagePositions s) ! k =
          (images s ! k)\<lparr>x := 50 + of_nat (k mod 4) * 220, y := 200 + of_nat (k div 4) * 220\<rparr>)
   \<and> selectedImages (resetImagePositions s) = {}
   \<and> (length (images s) = 5 \<longrightarrow>
        map (\<lambda>img. (x img, y img)) (images (resetImagePositions s)) =
          [(50, 200), (270, 200), (490, 200), (710, 200), (50, 420)])"
proof (intro conjI allI impI)
  show "length (images (resetImagePositions s)) = length (images s)"
    by (simp add: resetImagePositions_images map_index_from_length)
  show "selectedImages (resetImagePositions s) = {}"
    by (simp add: resetImagePositions_def)
next
  fix k assume "k < length (images s)"
  then show "images (resetImagePositions s) ! k =
          (images s ! k)\<lparr>x := 50 + of_nat (k mod 4) * 220, y := 200 + of_nat (k div 4) * 220\<rparr>"
    by (simp add: resetImagePositions_images map_index_from_nth)
next
  assume "length (images s) = 5"
  then obtain a b c d e where "images s = [a, b, c, d, e]"
    by (rule five_list)
  then show "map (\<lambda>img. (x img, y img)) (images (resetImagePositions s)) =
          [(50, 200), (270, 200), (490, 200), (710, 200), (50, 420)]"
    by (simp only: resetImagePositions_images grid5)
qed

theorem resetImagePositions_grid_witness:
  "length (images five_images) = 5
   \<and> selectedImages five_images = {3, 5}
   \<and> map (\<lambda>img. (x img, y img)) (images (resetImagePositions five_images)) =
          [(50, 200), (270, 200), (490, 200), (710, 200), (50, 420)]
   \<and> selectedImages (resetImagePositions five_images) = {}"
proof -
  have len: "length (images five_images) = 5" by (simp add: five_images_def)
  have sel: "selectedImages five_images = {3, 5}" by (simp add: five_images_def)
  note grid = resetImagePositions_grid [of five_images]
  note pos = grid [THEN conjunct2, THEN conjunct2, THEN conjunct2, THEN mp, OF len]
  note cleared = grid [THEN conjunct2, THEN conjunct2, THEN conjunct1]
  from len sel pos cleared show ?thesis by (intro conjI)
qed

subsection \<open>Rubber-band selection\<close>

lemma foldl_insert_if:
  "foldl (\<lambda>acc a. if P a then insert (f a) acc else acc) A xs = A \<union> f ` {a \<in> set xs. P a}"
  by (induction xs arbitrary: A) auto

lemma handleMouseUp_selecting:
  "isSelecting s \<Longrightarrow>
     selectedImages (handleMouseUp s) = id' ` {img \<in> set (images s). centerInBox (selectionBox s) img}"
  by (simp add: handleMouseUp_def Let_def foldl_insert_if)

lemma centerInBox_iff:
  "centerInBox sb img \<longleftrightarrow>
     min (startX sb) (endX sb) \<le> x img + width img / 2 \<and>
     x img + width img / 2 \<le> max (startX sb) (endX sb) \<and>
     min (startY sb) (endY sb) \<le> y img + height img / 2 \<and>
     y img + height img / 2 \<le> max (startY sb) (endY sb)"
  by (simp add: centerInBox_def Let_def)

lemma centerInBox_swap:
  "centerInBox \<lparr>startX = endX sb, startY = endY sb, endX = startX sb, endY = startY sb\<rparr> img
     = centerInBox sb img"
  by (simp add: centerInBox_iff min.commute max.commute)

text \<open>
  Claim C3. On the pointer-up that ends a rubber band, the selection becomes exactly the set
  of ids of the images whose centre \<open>(x + width/2, y + height/2)\<close> lies in the box spanned
  by the per-axis minimum and maximum of the start and the current corner, edges
  included; drawing the band from the other corner gives the same selection; a band
  that holds no centre gives the empty selection, whatever was selected before; the
  images are untouched and the rubber band is over.
\<close>

theorem rubber_band_release:
  assumes "isSelecting s"
  shows "selectedImages (handleMouseUp s) =
           id' ` {img \<in> set (images s).
                    min (startX (selectionBox s)) (endX (selectionBox s)) \<le> x img + width img / 2 \<and>
                    x img + width img / 2 \<le> max (startX (selectionBox s)) (endX (selectionBox s)) \<and>
                    min (startY (selectionBox s)) (endY (selectionBox s)) \<le> y img + height img / 2 \<and>
                    y img + height img / 2 \<le> max (startY (selectionBox s)) (endY (selectionBox s))}
       \<and> selectedImages
            (handleMouseUp (s\<lparr>selectionBox :=
               \<lparr>startX = endX (selectionBox s), startY = endY (selectionBox s),
                endX = startX (selectionBox s), endY = startY (selectionBox s)\<rparr>\<rparr>))
           = selectedImages (handleMouseUp s)
       \<and> ((\<forall>img \<in> set (images s). \<not> centerInBox (selectionBox s) img)
            \<longrightarrow> selectedImages (handleMouseUp s) = {})
       \<and> images (handleMouseUp s) = images s
       \<and> \<not> isSelecting (handleMouseUp s)"
proof (intro conjI)
  from assms show "selectedImages (handleMouseUp s) =
           id' ` {img \<in> set (images s).
                    min (startX (selectionBox s)) (endX (selectionBox s)) \<le> x img + width img / 2 \<and>
                    x img + width img / 2 \<le> max (startX (selectionBox s)) (endX (selectionBox s)) \<and>
                    min (startY (selectionBox s)) (endY (selectionBox s)) \<le> y img + height img / 2 \<and>
                    y img + height img / 2 \<le> max (startY (selectionBox s)) (endY (selectionBox s))}"
    by (simp only: handleMouseUp_selecting centerInBox_iff)
  let ?t = "s\<lparr>selectionBox :=
               \<lparr>startX = endX (selectionBox s), startY = endY (selectionBox s),
                endX = startX (selectionBox s), endY = startY (selectionBox s)\<rparr>\<rparr>"
  from assms have "isSelecting ?t" by simp
  then have "selectedImages (handleMouseUp ?t) =
      id' ` {img \<in> set (images ?t). centerInBox (selectionBox ?t) img}"
    by (rule handleMouseUp_selecting)
  also have "\<dots> = id' ` {img \<in> set (images s). centerInBox (selectionBox s) img}"
    by (simp add: centerInBox_swap)
  also from assms have "\<dots> = selectedImages (handleMouseUp s)"
    by (simp only: handleMouseUp_selecting)
  finally show "selectedImages (handleMouseUp ?t) = selectedImages (handleMouseUp s)" .
  from assms show "(\<forall>img \<in> set (images s). \<not> centerInBox (selectionBox s) img)
            \<longrightarrow> selectedImages (handleMouseUp s) = {}"
    by (auto simp: handleMouseUp_selecting)
  show "images (handleMouseUp s) = images s"
    by (simp add: handleMouseUp_def Let_def)
  show "\<not> isSelecting (handleMouseUp s)"
    by (simp add: handleMouseUp_def Let_def)
qed

lemma band_state_centers:
  "{img \<in> set (images band_state).
      min (startX (selectionBox band_state)) (endX (selectionBox band_state)) \<le> x img + width img / 2 \<and>
      x img + width img / 2 \<le> max (startX (selectionBox band_state)) (endX (selectionBox band_state)) \<and>
      min (startY (selectionBox band_state)) (endY (selectionBox band_state)) \<le> y img + height img / 2 \<and>
      y img + height img / 2 \<le> max (startY (selectionBox band_state)) (endY (selectionBox band_state))}
   = {item 1 0 0 20 20 10, item 2 40 40 20 20 20}"
  by (auto simp: band_state_def item_def)

theorem rubber_band_release_witness:
  "isSelecting band_state
   \<and> selectedImages band_state = {3}
   \<and> selectedImages (handleMouseUp band_state) = {1, 2}
   \<and> selectedImages (handleMouseUp (band_state\<lparr>selectionBox :=
               \<lparr>startX = 60, startY = 60, endX = 0, endY = 0\<rparr>\<rparr>)) = {1, 2}"
proof -
  have sel: "isSelecting band_state" by (simp add: band_state_def)
  have old: "selectedImages band_state = {3}" by (simp add: band_state_def)
  have box: "\<lparr>startX = endX (selectionBox band_state), startY = endY (selectionBox band_state),
                endX = startX (selectionBox band_state), endY = startY (selectionBox band_state)\<rparr>
             = \<lparr>startX = 60, startY = 60, endX = 0, endY = 0\<rparr>"
    by (simp add: band_state_def)
  note rel = rubber_band_release [OF sel]
  from rel [THEN conjunct1] have up: "selectedImages (handleMouseUp band_state) = {1, 2}"
    unfolding band_state_centers by (simp add: item_def)
  from rel [THEN conjunct2, THEN conjunct1] up
  have "selectedImages (handleMouseUp (band_state\<lparr>selectionBox :=
               \<lparr>startX = 60, startY = 60, endX = 0, endY = 0\<rparr>\<rparr>)) = {1, 2}"
    unfolding box by simp
  with sel old up show ?thesis by (intro conjI)
qed

subsection \<open>Single drag\<close>

lemma handleMouseMove_single:
  assumes "isDraggingImage s" and "selectedImage s = Some a" and "a \<noteq> 0"
  shows "handleMouseMove e canvasElement s =
     s\<lparr>lastMousePos := \<lparr>x = clientX e, y = clientY e\<rparr>,
       images := map (\<lambda>img. if id' img = a
                        then img\<lparr>x := x img + (clientX e - x (dragOffset s)) / zoomLevel s,
                                 y := y img + (clientY e - y (dragOffset s)) / zoomLevel s\<rparr>
                        else img) (images s),
       dragOffset := \<lparr>x = clientX e, y = clientY e\<rparr>\<rparr>"
  using assms by (simp add: handleMouseMove_def Let_def)

text \<open>
  Claim C5, as amended. A pointer-move handled in single-drag mode (the drag flag is set and
  \<open>selectedImage\<close> holds a non-zero id), at a positive zoom \<open>z\<close>, adds
  \<open>((clientX - dragOffset.x) / z, (clientY - dragOffset.y) / z)\<close> to the position of every
  image that carries the anchor id and leaves every image with another id as it is; where
  the ids of the store are distinct, that is every image at another index than the
  anchor. No id, size or stacking order changes. The handler then stores the pointer position in \<open>dragOffset\<close>
  and stays in the same mode at the same zoom, so the next move is measured from this
  event and not from the press.
\<close>

theorem drag_single_move:
  assumes "isDraggingImage s" and "selectedImage s = Some a" and "a \<noteq> 0"
    and "0 < zoomLevel s"
  shows "length (images (handleMouseMove e canvasElement s)) = length (images s)
       \<and> (\<forall>k < length (images s).
            images (handleMouseMove e canvasElement s) ! k =
              (if id' (images s ! k) = a
               then (images s ! k)
                      \<lparr>x := x (images s ! k) + (clientX e - x (dragOffset s)) / zoomLevel s,
                       y := y (images s ! k) + (clientY e - y (dragOffset s)) / zoomLevel s\<rparr>
               else images s ! k))
       \<and> (\<forall>k < length (images s).
            id' (images (handleMouseMove e canvasElement s) ! k) = id' (images s ! k)
          \<and> width (images (handleMouseMove e canvasElement s) ! k) = width (images s ! k)
          \<and> height (images (handleMouseMove e canvasElement s) ! k) = height (images s ! k)
          \<and> zIndex (images (handleMouseMove e canvasElement s) ! k) = zIndex (images s ! k))
       \<and> (distinct (map id' (images s)) \<longrightarrow>
            (\<forall>j < length (images s). \<forall>k < length (images s).
               id' (images s ! k) = a \<and> j \<noteq> k \<longrightarrow>
                 images (handleMouseMove e canvasElement s) ! j = images s ! j))
       \<and> dragOffset (handleMouseMove e canvasElement s) = \<lparr>x = clientX e, y = clientY e\<rparr>
       \<and> isDraggingImage (handleMouseMove e canvasElement s)
       \<and> selectedImage (handleMouseMove e canvasElement s) = Some a
       \<and> zoomLevel (handleMouseMove e canvasElement s) = zoomLevel s"
proof -
  have other: "images (handleMouseMove e canvasElement s) ! j = images s ! j"
    if d: "distinct (map id' (images s))" and j: "j < length (images s)"
      and k: "k < length (images s)" and ak: "id' (images s ! k) = a" and jk: "j \<noteq> k" for j k
  proof -
    from nth_eq_iff_index_eq [OF d, of j k] j k jk
    have "id' (images s ! j) \<noteq> id' (images s ! k)" by simp
    with ak have "id' (images s ! j) \<noteq> a" by simp
    with j show ?thesis
      unfolding handleMouseMove_single [OF assms(1,2,3)] by simp
  qed
  have rest: "length (images (handleMouseMove e canvasElement s)) = length (images s)
       \<and> (\<forall>k < length (images s).
            images (handleMouseMove e canvasElement s) ! k =
              (if id' (images s ! k) = a
               then (images s ! k)
                      \<lparr>x := x (images s ! k) + (clientX e - x (dragOffset s)) / zoomLevel s,
                       y := y (images s ! k) + (clientY e - y (dragOffset s)) / zoomLevel s\<rparr>
               else images s ! k))
       \<and> (\<forall>k < length (images s).
            id' (images (handleMouseMove e canvasElement s) ! k) = id' (images s ! k)
          \<and> width (images (handleMouseMove e canvasElement s) ! k) = width (images s ! k)
          \<and> height (images (handleMouseMove e canvasElement s) ! k) = height (images s ! k)
          \<and> zIndex (images (handleMouseMove e canvasElement s) ! k) = zIndex (images s ! k))
       \<and> dragOffset (handleMouseMove e canvasElement s) = \<lparr>x = clientX e, y = clientY e\<rparr>
       \<and> isDraggingImage (handleMouseMove e canvasElement s)
       \<and> selectedImage (handleMouseMove e canvasElement s) = Some a
       \<and> zoomLevel (handleMouseMove e canvasElement s) = zoomLevel s"
    using assms unfolding handleMouseMove_single [OF assms(1,2,3)] by simp
  from rest other show ?thesis by blast
qed

theorem drag_single_move_witness:
  "isDraggingImage drag_state \<and> selectedImage drag_state = Some 2 \<and> (2::rat) \<noteq> 0
   \<and> 0 < zoomLevel drag_state
   \<and> distinct (map id' (images drag_state))
   \<and> images (handleMouseMove (mouse 130 90) (Some viewport) drag_state) =
        [item 1 0 0 20 20 10, item 2 55 35 20 20 40, item 3 190 190 20 20 30]
   \<and> images (handleMouseMove (mouse 140 90) (Some viewport)
               (handleMouseMove (mouse 130 90) (Some viewport) drag_state)) =
        [item 1 0 0 20 20 10, item 2 60 35 20 20 40, item 3 190 190 20 20 30]"
proof -
  have h1: "isDraggingImage drag_state" by (simp add: drag_state_def)
  have h2: "selectedImage drag_state = Some 2" by (simp add: drag_state_def)
  have h3: "(2::rat) \<noteq> 0" by simp
  have h4: "0 < zoomLevel drag_state" by (simp add: drag_state_def)
  note mv = drag_single_move [OF h1 h2 h3 h4, of "mouse 130 90" "Some viewport"]
  have d: "distinct (map id' (images drag_state))" by (simp add: drag_state_def item_def)
  have v1: "images (handleMouseMove (mouse 130 90) (Some viewport) drag_state) =
        [item 1 0 0 20 20 10, item 2 55 35 20 20 40, item 3 190 190 20 20 30]"
    by (simp add: handleMouseMove_def Let_def drag_state_def item_def mouse_def initial_def)
  have v2: "images (handleMouseMove (mouse 140 90) (Some viewport)
               (handleMouseMove (mouse 130 90) (Some viewport) drag_state)) =
        [item 1 0 0 20 20 10, item 2 60 35 20 20 40, item 3 190 190 20 20 30]"
    by (simp add: handleMouseMove_def Let_def drag_state_def item_def mouse_def initial_def)
  from mv h1 h2 h3 h4 d v1 v2 show ?thesis by blast
qed

text \<open>
  Claim C5 as stated fails in \<open>twin_state\<close>: the two images of one drop carry the same id,
  the press on the second makes that id the anchor, and one move displaces both.
\<close>

theorem drag_single_move_counterexample:
  "valid_run initial twin_run
   \<and> isDraggingImage twin_state
   \<and> selectedImage twin_state = Some (of_nat t0 + 1 / 2)
   \<and> 0 < zoomLevel twin_state
   \<and> map id' (images twin_state) = [of_nat t0 + 1 / 2, of_nat t0 + 1 / 2]
   \<and> map x (images twin_state) = [300, 320]
   \<and> map y (images twin_state) = [250, 270]
   \<and> map x (images (handleMouseMove (mouse 450 330) (Some viewport) twin_state)) = [330, 350]
   \<and> map y (images (handleMouseMove (mouse 450 330) (Some viewport) twin_state)) = [260, 280]"
proof -
  have v: "valid_run initial twin_run"
    by (simp add: twin_run_def scenario_defs)
  have tw: "twin_state =
      initial\<lparr>images := [item (of_nat t0 + 1 / 2) 300 250 200 100 (of_nat t0 + 1000),
                          item (of_nat t0 + 1 / 2) 320 270 200 100 (of_nat t0 + 1000)],
              selectedImage := Some (of_nat t0 + 1 / 2),
              selectedImages := {of_nat t0 + 1 / 2},
              dragOffset := \<lparr>x = 420, y = 320\<rparr>,
              isDraggingImage := True\<rparr>"
    by (simp add: twin_state_def twin_run_def scenario_defs item_def)
  have st: "isDraggingImage twin_state"
    "selectedImage twin_state = Some (of_nat t0 + 1 / 2)"
    "0 < zoomLevel twin_state"
    "map id' (images twin_state) = [of_nat t0 + 1 / 2, of_nat t0 + 1 / 2]"
    "map x (images twin_state) = [300, 320]"
    "map y (images twin_state) = [250, 270]"
    unfolding tw by (simp_all add: item_def initial_def)
  have mv: "map x (images (handleMouseMove (mouse 450 330) (Some viewport) twin_state)) = [330, 350]"
    "map y (images (handleMouseMove (mouse 450 330) (Some viewport) twin_state)) = [260, 280]"
    unfolding tw by (simp_all add: handleMouseMove_def Let_def item_def initial_def mouse_def t0_def)
  from v st mv show ?thesis by (intro conjI)
qed

subsection \<open>Press on the empty canvas\<close>

lemma handleMouseMove_selection:
  "selectedImages (handleMouseMove e canvasElement s) = selectedImages s
   \<and> isSelecting (handleMouseMove e canvasElement s) = isSelecting s"
  by (simp add: handleMouseMove_def Let_def split: option.split)

lemma run_moves_selection:
  "selectedImages (run s (map (\<lambda>(m, r). MouseMove m r) ms)) = selectedImages s
   \<and> isSelecting (run s (map (\<lambda>(m, r). MouseMove m r) ms)) = isSelecting s"
proof (induction ms arbitrary: s)
  case Nil
  show ?case by (simp add: run_def)
next
  case (Cons p ps)
  obtain m r where p: "p = (m, r)" by (cases p)
  have "run s (map (\<lambda>(m, r). MouseMove m r) (p # ps)) =
        run (handleMouseMove m r s) (map (\<lambda>(m, r). MouseMove m r) ps)"
    by (simp add: run_def p)
  with Cons.IH [of "handleMouseMove m r s"] handleMouseMove_selection [of m r s]
  show ?case by simp
qed

lemma handleCanvasMouseDown_primary:
  assumes "targetIsCurrentTarget e" and "button e = 0"
  shows "selectedImages (handleCanvasMouseDown e s) = {}"
    and "isSelecting (handleCanvasMouseDown e s)"
    and "selectionBox (handleCanvasMouseDown e s) =
           \<lparr>startX = canvasPointX e (currentTargetRect e) s,
            startY = canvasPointY e (currentTargetRect e) s,
            endX = canvasPointX e (currentTargetRect e) s,
            endY = canvasPointY e (currentTargetRect e) s\<rparr>"
    and "images (handleCanvasMouseDown e s) = images s"
  using assms by (simp_all add: handleCanvasMouseDown_def Let_def)


text \<open>
  Claim C10. A primary-button press on the empty canvas empties the selection and enters
  rubber-band mode at once, without touching the images; the selection stays empty and the
  mode stays rubber-band over every sequence of pointer-moves that follows; the release
  then sets the selection to the ids of the images whose centre is in the box.
\<close>

theorem canvas_press_clears_selection:
  assumes "targetIsCurrentTarget e" and "button e = 0"
  shows "selectedImages (handleCanvasMouseDown e s) = {}
       \<and> isSelecting (handleCanvasMouseDown e s)
       \<and> images (handleCanvasMouseDown e s) = images s
       \<and> (\<forall>ms. selectedImages (run (handleCanvasMouseDown e s) (map (\<lambda>(m, r). MouseMove m r) ms)) = {}
              \<and> isSelecting (run (handleCanvasMouseDown e s) (map (\<lambda>(m, r). MouseMove m r) ms))
              \<and> selectedImages
                   (handleMouseUp (run (handleCanvasMouseDown e s) (map (\<lambda>(m, r). MouseMove m r) ms)))
                  = id' ` {img \<in> set (images (run (handleCanvasMouseDown e s)
                                                    (map (\<lambda>(m, r). MouseMove m r) ms))).
                             centerInBox (selectionBox (run (handleCanvasMouseDown e s)
                                                    (map (\<lambda>(m, r). MouseMove m r) ms))) img})"
proof (intro conjI allI)
  from assms show "selectedImages (handleCanvasMouseDown e s) = {}"
    by (rule handleCanvasMouseDown_primary)
  from assms show "isSelecting (handleCanvasMouseDown e s)"
    by (rule handleCanvasMouseDown_primary)
  from assms show "images (handleCanvasMouseDown e s) = images s"
    by (rule handleCanvasMouseDown_primary)
next
  fix ms
  let ?t = "run (handleCanvasMouseDown e s) (map (\<lambda>(m, r). MouseMove m r) ms)"
  from run_moves_selection [of "handleCanvasMouseDown e s" ms]
    handleCanvasMouseDown_primary(1,2) [OF assms, of s]
  show "selectedImages ?t = {}" and sel: "isSelecting ?t" by simp_all
  from sel show "selectedImages (handleMouseUp ?t) =
      id' ` {img \<in> set (images ?t). centerInBox (selectionBox ?t) img}"
    by (rule handleMouseUp_selecting)
qed

theorem canvas_press_clears_selection_witness:
  "targetIsCurrentTarget (mouse 10 10) \<and> button (mouse 10 10) = 0
   \<and> selectedImages five_images = {3, 5}
   \<and> selectedImages (handleCanvasMouseDown (mouse 10 10) five_images) = {}
   \<and> selectedImages (run (handleCanvasMouseDown (mouse 10 10) five_images)
                         (map (\<lambda>(m, r). MouseMove m r) [(mouse 600 300, Some viewport)])) = {}
   \<and> selectedImages (handleMouseUp (run (handleCanvasMouseDown (mouse 10 10) five_images)
                         (map (\<lambda>(m, r). MouseMove m r) [(mouse 600 300, Some viewport)]))) = {3}"
proof -
  have h1: "targetIsCurrentTarget (mouse 10 10)" by (simp add: mouse_def)
  have h2: "button (mouse 10 10) = 0" by (simp add: mouse_def)
  have old: "selectedImages five_images = {3, 5}" by (simp add: five_images_def)
  note press = canvas_press_clears_selection [OF h1 h2, of five_images]
  note a = press [THEN conjunct1]
  note b = press [THEN conjunct2, THEN conjunct2, THEN conjunct2, THEN spec,
                  of "[(mouse 600 300, Some viewport)]", THEN conjunct1]
  have up: "selectedImages (handleMouseUp (run (handleCanvasMouseDown (mouse 10 10) five_images)
                         (map (\<lambda>(m, r). MouseMove m r) [(mouse 600 300, Some viewport)]))) = {3}"
    by (simp add: run_def handleCanvasMouseDown_def handleMouseMove_def handleMouseUp_def
        centerInBox_def canvasPointX_def canvasPointY_def Let_def
        five_images_def initial_def item_def mouse_def viewport_def)
  from h1 h2 old a b up show ?thesis by (intro conjI)
qed

subsection \<open>Selection and removal\<close>

lemma ids_map:
  assumes "\<And>img. id' (f img) = id' img"
  shows "id' ` set (map f xs) = id' ` set xs"
proof -
  have "map id' (map f xs) = map id' xs" by (simp add: assms)
  then have "set (map id' (map f xs)) = set (map id' xs)" by simp
  then show ?thesis by (simp only: set_map)
qed

lemma handleImageMouseDown_ids:
  "id' ` set (images (handleImageMouseDown now e i s)) = id' ` set (images s)"
proof -
  have a: "id' ` set (map (\<lambda>img. if id' img \<in> selectedImages s
                             then img\<lparr>zIndex := fl (of_nat now + id' img)\<rparr> else img) (images s))
            = id' ` set (images s)"
    by (rule ids_map) simp
  have b: "id' ` set (map (\<lambda>img. if id' img = i then img\<lparr>zIndex := of_nat now\<rparr> else img) (images s))
            = id' ` set (images s)"
    by (rule ids_map) simp
  show ?thesis
    unfolding handleImageMouseDown_def using a b by simp
qed

lemma handleImageMouseDown_selection:
  "selectedImages (handleImageMouseDown now e i s) \<subseteq> insert i (selectedImages s)"
  by (auto simp: handleImageMouseDown_def)

lemma handleMouseMove_ids:
  "id' ` set (images (handleMouseMove e c s)) = id' ` set (images s)"
proof -
  have a: "\<And>dx dy. id' ` set (map (\<lambda>img. if Some (id' img) = selectedImage s
                             then img\<lparr>x := x img + dx, y := y img + dy\<rparr> else img) (images s))
            = id' ` set (images s)"
    by (rule ids_map) simp
  have b: "\<And>dx dy. id' ` set (map (\<lambda>img. if id' img \<in> selectedImages s
                             then img\<lparr>x := x img + dx, y := y img + dy\<rparr> else img) (images s))
            = id' ` set (images s)"
    by (rule ids_map) simp
  show ?thesis
    unfolding handleMouseMove_def Let_def using a b by (simp split: option.split)
qed

lemma handleMouseMove_selectedImages:
  "selectedImages (handleMouseMove e c s) = selectedImages s"
  by (simp add: handleMouseMove_def Let_def split: option.split)

lemma handleMouseUp_ok: "selection_ok s \<Longrightarrow> selection_ok (handleMouseUp s)"
  by (auto simp: selection_ok_def handleMouseUp_def Let_def foldl_insert_if)

lemma handleCanvasMouseDown_ok: "selection_ok s \<Longrightarrow> selection_ok (handleCanvasMouseDown e s)"
  by (simp add: selection_ok_def handleCanvasMouseDown_def Let_def)

lemma selection_ok_step:
  assumes "selection_ok s" and "enabled s ev" and "\<And>i. ev \<noteq> RemoveImage i"
  shows "selection_ok (dispatch s ev)"
proof (cases ev)
  case (AddImage loaded f dx dy)
  from dispatch_AddImage [of s loaded f dx dy] assms(1)
  have "selection_ok (dispatch s (AddImage loaded f dx dy))"
    by (auto simp: selection_ok_def)
  then show ?thesis unfolding AddImage .
next
  case (ImageMouseDown now e i)
  with assms(2) have "i \<in> id' ` set (images s)" by simp
  with assms(1) handleImageMouseDown_selection [of now e i s]
  have "selectedImages (handleImageMouseDown now e i s) \<subseteq> id' ` set (images s)"
    unfolding selection_ok_def by blast
  with ImageMouseDown show ?thesis
    by (simp add: selection_ok_def handleImageMouseDown_ids)
next
  case (CanvasMouseDown e)
  with assms(1) show ?thesis by (simp add: handleCanvasMouseDown_ok)
next
  case (MouseMove e c)
  with assms(1) show ?thesis
    by (simp add: selection_ok_def handleMouseMove_ids handleMouseMove_selectedImages)
next
  case MouseUp
  with assms(1) show ?thesis by (simp add: handleMouseUp_ok)
next
  case (Wheel e)
  with assms(1) show ?thesis by (simp add: selection_ok_def handleWheel_def Let_def)
next
  case (RemoveImage i)
  with assms(3) [of i] show ?thesis by simp
next
  case ResetImagePositions
  then show ?thesis by (simp add: selection_ok_def resetImagePositions_def)
next
  case ResetZoom
  with assms(1) show ?thesis by (simp add: selection_ok_def resetZoom_def)
next
  case DeleteSelectedImages
  then show ?thesis by (simp add: selection_ok_def deleteSelectedImages_def)
qed

lemma removeImage_selection: "selectedImages (removeImage i s) = selectedImages s"
  by (simp add: removeImage_def)

lemma removeImage_dangling:
  "i \<in> selectedImages s \<Longrightarrow> \<not> selection_ok (removeImage i s)"
  by (auto simp: selection_ok_def removeImage_def)

lemma deleteSelectedImages_ok:
  "selection_ok (deleteSelectedImages s) \<and> selectedImages (deleteSelectedImages s) = {}"
  by (simp add: selection_ok_def deleteSelectedImages_def)

text \<open>
  Claim C1. The claim asks that every removal of an image prunes the selection, so that no
  selected id is ever without its image. The delete button of an image does not do it:
  in the run below an image is added, pressed, released and deleted, every step being one
  the page offers, and the selection still holds the id of the deleted image.
  \<open>selection_ok_step\<close> shows that every other handler keeps the selection within the
  store, and \<open>deleteSelectedImages_ok\<close> that the bulk delete empties it.
\<close>

theorem removeImage_leaves_dangling_selection:
  "valid_run initial delete_run
   \<and> images (run initial delete_run) = []
   \<and> selectedImages (run initial delete_run) = {of_nat t0 + 1 / 2}
   \<and> \<not> selection_ok (run initial delete_run)"
  by (simp add: delete_run_def selection_ok_def scenario_defs)

subsection \<open>Group bring-to-front\<close>

lemma group_state_value:
  "group_state =
     initial\<lparr>images := [item idA 100 250 200 100 (of_nat t0 + 5500),
                         item idB 400 250 200 100 (of_nat t0 + 1000),
                         item idC 700 250 200 100 (of_nat t0 + 5000 + idC),
                         item idD 1000 250 200 100 (of_nat t0 + 5000 + idD)],
             selectedImages := {idA, idB},
             dragOffset := \<lparr>x = 200, y = 300\<rparr>\<rparr>"
  by (simp add: group_state_def group_run_def scenario_defs item_def idA_def idB_def idC_def
      idD_def insert_commute)

lemma group_state_eval:
  "map (\<lambda>i. (id' i, zIndex i)) (images group_state) =
     [(idA, of_nat t0 + 5500), (idB, of_nat t0 + 1000),
      (idC, of_nat t0 + 5000 + idC), (idD, of_nat t0 + 5000 + idD)]"
  "selectedImages group_state = {idA, idB}"
  unfolding group_state_value by (simp_all add: item_def)

lemma group_run_valid: "valid_run initial group_run"
  by (simp add: group_run_def scenario_defs idA_def idB_def idC_def idD_def)

lemma handleImageMouseDown_group:
  assumes "\<not> ctrlKey e" and "\<not> metaKey e"
    and "imageId \<in> selectedImages s" and "card (selectedImages s) > 1"
  shows "handleImageMouseDown now e imageId s =
     s\<lparr>isDraggingGroup := True,
       dragOffset := \<lparr>x = clientX e, y = clientY e\<rparr>,
       images := map (\<lambda>img. if id' img \<in> selectedImages s
                             then img\<lparr>zIndex := fl (of_nat now + id' img)\<rparr>
                             else img) (images s)\<rparr>"
  using assms by (simp add: handleImageMouseDown_def)

text \<open>
  Claim C2, as amended. A press without modifier on an image of a selection of more than one
  starts a group drag and sets the stacking order of every selected image to the clock
  reading plus the id of the image, a binary64 sum; unselected images are unchanged. So
  among the selected images the order after the press never reverses the order of the
  ids, whatever the order was before: an image with the smaller or equal id is not above.
  A selected image with an id of at least 1 ends above every unselected image whose
  stacking order is at most the clock reading, the clock reading being below \<open>2^53 - 1\<close>.
\<close>

theorem group_bring_to_front:
  assumes "\<not> ctrlKey e" and "\<not> metaKey e"
    and "imageId \<in> selectedImages s" and "card (selectedImages s) > 1"
  shows "length (images (handleImageMouseDown now e imageId s)) = length (images s)
       \<and> (\<forall>k < length (images s).
            images (handleImageMouseDown now e imageId s) ! k =
              (if id' (images s ! k) \<in> selectedImages s
               then (images s ! k)\<lparr>zIndex := fl (of_nat now + id' (images s ! k))\<rparr>
               else images s ! k))
       \<and> (\<forall>j < length (images s). \<forall>k < length (images s).
            id' (images s ! j) \<in> selectedImages s \<and> id' (images s ! k) \<in> selectedImages s \<and>
            id' (images s ! j) \<le> id' (images s ! k) \<longrightarrow>
              zIndex (images (handleImageMouseDown now e imageId s) ! j)
                \<le> zIndex (images (handleImageMouseDown now e imageId s) ! k))
       \<and> (\<forall>j < length (images s). \<forall>k < length (images s).
            id' (images s ! j) \<in> selectedImages s \<and> 1 \<le> id' (images s ! j) \<and>
            now + 1 < 2 ^ 53 \<and>
            id' (images s ! k) \<notin> selectedImages s \<and> zIndex (images s ! k) \<le> of_nat now \<longrightarrow>
              zIndex (images (handleImageMouseDown now e imageId s) ! k)
                < zIndex (images (handleImageMouseDown now e imageId s) ! j))
       \<and> isDraggingGroup (handleImageMouseDown now e imageId s)
       \<and> selectedImages (handleImageMouseDown now e imageId s) = selectedImages s"
proof -
  let ?s' = "handleImageMouseDown now e imageId s"
  have nth: "\<forall>k < length (images s).
            images ?s' ! k =
              (if id' (images s ! k) \<in> selectedImages s
               then (images s ! k)\<lparr>zIndex := fl (of_nat now + id' (images s ! k))\<rparr>
               else images s ! k)"
    and rest: "length (images ?s') = length (images s)" "isDraggingGroup ?s'"
      "selectedImages ?s' = selectedImages s"
    unfolding handleImageMouseDown_group [OF assms] by simp_all
  have order: "zIndex (images ?s' ! j) \<le> zIndex (images ?s' ! k)"
    if "j < length (images s)" "k < length (images s)"
      "id' (images s ! j) \<in> selectedImages s" "id' (images s ! k) \<in> selectedImages s"
      "id' (images s ! j) \<le> id' (images s ! k)" for j k
  proof -
    from that(5) have "fl (of_nat now + id' (images s ! j)) \<le> fl (of_nat now + id' (images s ! k))"
      by (intro fl_mono) simp
    with nth that(1-4) show ?thesis by simp
  qed
  have front: "zIndex (images ?s' ! k) < zIndex (images ?s' ! j)"
    if "j < length (images s)" "k < length (images s)"
      "id' (images s ! j) \<in> selectedImages s" "1 \<le> id' (images s ! j)" "now + 1 < 2 ^ 53"
      "id' (images s ! k) \<notin> selectedImages s" "zIndex (images s ! k) \<le> of_nat now" for j k
  proof -
    from that(5) have "fl (of_nat (now + 1)) = (of_nat (now + 1) :: rat)" by (rule fl_of_nat)
    moreover from that(4) have "fl (of_nat (now + 1)) \<le> fl (of_nat now + id' (images s ! j))"
      by (intro fl_mono) simp
    ultimately have "of_nat now + 1 \<le> fl (of_nat now + id' (images s ! j))" by simp
    with that(7) have "zIndex (images s ! k) < fl (of_nat now + id' (images s ! j))" by simp
    with nth that(1,2,3,6) show ?thesis by simp
  qed
  from nth rest order front show ?thesis by blast
qed

lemma group_state_nth:
  "length (images group_state) = 4"
  "id' (images group_state ! 0) = idA"
  "id' (images group_state ! 1) = idB"
  "id' (images group_state ! 2) = idC"
  unfolding group_state_value by (simp_all add: item_def)

theorem group_bring_to_front_witness:
  "\<not> ctrlKey (mouse 200 300) \<and> \<not> metaKey (mouse 200 300)
   \<and> idA \<in> selectedImages group_state \<and> card (selectedImages group_state) > 1
   \<and> idA \<le> idB
   \<and> zIndex (images (handleImageMouseDown (t0 + 6000) (mouse 200 300) idA group_state) ! 0)
       \<le> zIndex (images (handleImageMouseDown (t0 + 6000) (mouse 200 300) idA group_state) ! 1)"
proof -
  have h1: "\<not> ctrlKey (mouse 200 300)" and h2: "\<not> metaKey (mouse 200 300)"
    by (simp_all add: mouse_def)
  have h3: "idA \<in> selectedImages group_state" by (simp add: group_state_eval)
  have ne: "idA \<noteq> idB" and le: "idA \<le> idB" by (simp_all add: idA_def idB_def t0_def)
  from ne have h4: "card (selectedImages group_state) > 1" by (simp add: group_state_eval)
  have sel: "id' (images group_state ! 0) \<in> selectedImages group_state
           \<and> id' (images group_state ! 1) \<in> selectedImages group_state"
    using group_state_nth(2,3) group_state_eval(2) by simp
  note fr = group_bring_to_front [OF h1 h2 h3 h4, of "t0 + 6000"]
  note ord = fr [THEN conjunct2, THEN conjunct2, THEN conjunct1, rule_format, of 0 1]
  have "zIndex (images (handleImageMouseDown (t0 + 6000) (mouse 200 300) idA group_state) ! 0)
       \<le> zIndex (images (handleImageMouseDown (t0 + 6000) (mouse 200 300) idA group_state) ! 1)"
    using ord group_state_nth(1,2,3) sel le by simp
  with h1 h2 h3 h4 le show ?thesis by (intro conjI)
qed

text \<open>
  Claim C2 as stated fails in \<open>group_state\<close>: A is above B before the press and below it
  after, and the unselected C stays above the selected A.
\<close>

theorem group_bring_to_front_counterexample:
  "valid_run initial group_run
   \<and> \<not> ctrlKey (mouse 200 300) \<and> \<not> metaKey (mouse 200 300)
   \<and> selectedImages group_state = {idA, idB}
   \<and> card (selectedImages group_state) > 1
   \<and> id' (images group_state ! 0) = idA
   \<and> id' (images group_state ! 1) = idB
   \<and> id' (images group_state ! 2) = idC
   \<and> idC \<notin> selectedImages group_state
   \<and> zIndex (images group_state ! 1) < zIndex (images group_state ! 0)
   \<and> \<not> zIndex (images (handleImageMouseDown (t0 + 6000) (mouse 200 300) idA group_state) ! 1)
        < zIndex (images (handleImageMouseDown (t0 + 6000) (mouse 200 300) idA group_state) ! 0)
   \<and> \<not> zIndex (images (handleImageMouseDown (t0 + 6000) (mouse 200 300) idA group_state) ! 2)
        < zIndex (images (handleImageMouseDown (t0 + 6000) (mouse 200 300) idA group_state) ! 0)
   \<and> isDraggingGroup (handleImageMouseDown (t0 + 6000) (mouse 200 300) idA group_state)"
proof -
  have ne: "idA \<noteq> idB" "idC \<noteq> idA" "idC \<noteq> idB"
    by (simp_all add: idA_def idB_def idC_def t0_def)
  have before: "zIndex (images group_state ! 1) < zIndex (images group_state ! 0)"
    unfolding group_state_value by (simp add: item_def t0_def)
  have after:
    "\<not> zIndex (images (handleImageMouseDown (t0 + 6000) (mouse 200 300) idA group_state) ! 1)
        < zIndex (images (handleImageMouseDown (t0 + 6000) (mouse 200 300) idA group_state) ! 0)"
    "\<not> zIndex (images (handleImageMouseDown (t0 + 6000) (mouse 200 300) idA group_state) ! 2)
        < zIndex (images (handleImageMouseDown (t0 + 6000) (mouse 200 300) idA group_state) ! 0)"
    "isDraggingGroup (handleImageMouseDown (t0 + 6000) (mouse 200 300) idA group_state)"
    unfolding group_state_value
    by (simp_all add: handleImageMouseDown_def item_def initial_def mouse_def fl_eval
        idA_def idB_def idC_def t0_def)
  from ne have "card (selectedImages group_state) > 1" "idC \<notin> selectedImages group_state"
    by (simp_all add: group_state_eval)
  with group_run_valid group_state_eval(2) group_state_nth(2,3,4) before after
  show ?thesis by (simp add: mouse_def)
qed

subsection \<open>Identity of a new image\<close>

lemma addImage_Some:
  assumes "startsWith (file_type f) ''image/''"
    and "addImage (Some env) f dropX dropY s = Some s'"
  shows "images s' = images s @ [last (images s')]"
    and "id' (last (images s')) = fl (of_nat (now_id env) + random_id env)"
  using assms
  by (auto simp: addImage_def placeImage_def Let_def split: quotient.splits)

lemma identity_bounds:
  assumes "0 \<le> r" and "r < 1" and "n + 1 < 2 ^ 53"
  shows "of_nat n \<le> fl (of_nat n + r)" and "fl (of_nat n + r) \<le> of_nat n + 1"
proof -
  from assms(3) have "n < 2 ^ 53" by simp
  then have "fl (of_nat n) = (of_nat n :: rat)" by (rule fl_of_nat)
  moreover from assms(1) have "fl (of_nat n) \<le> fl (of_nat n + r)" by (intro fl_mono) simp
  ultimately show "of_nat n \<le> fl (of_nat n + r)" by simp
  from assms(3) have "fl (of_nat (n + 1)) = (of_nat (n + 1) :: rat)" by (rule fl_of_nat)
  moreover from assms(2) have "fl (of_nat n + r) \<le> fl (of_nat (n + 1))" by (intro fl_mono) simp
  ultimately show "fl (of_nat n + r) \<le> of_nat n + 1" by simp
qed

text \<open>
  Claim C6, as amended. A new image is appended with the identity \<open>Date.now() + Math.random()\<close>,
  the binary64 sum of a clock reading (below \<open>2^53 - 1\<close>) and a draw from \<open>[0, 1)\<close>, and not
  with a counter value; the identity lies between the clock reading and the clock reading
  plus one. Of two images, the one created at the later clock reading has an identity that
  is not smaller, and a strictly greater one where the readings are at least two
  milliseconds apart; within one millisecond an image whose draw is not smaller has an
  identity that is not smaller.
\<close>

theorem addImage_identity:
  assumes "startsWith (file_type f) ''image/''"
    and "addImage (Some e1) f dx dy s = Some s1"
    and "startsWith (file_type g) ''image/''"
    and "addImage (Some e2) g dx' dy' s' = Some s2"
    and "0 \<le> random_id e1" and "random_id e1 < 1"
    and "0 \<le> random_id e2" and "random_id e2 < 1"
    and "now_id e1 + 1 < 2 ^ 53" and "now_id e2 + 1 < 2 ^ 53"
  shows "images s1 = images s @ [last (images s1)]
       \<and> id' (last (images s1)) = fl (of_nat (now_id e1) + random_id e1)
       \<and> of_nat (now_id e1) \<le> id' (last (images s1))
       \<and> id' (last (images s1)) \<le> of_nat (now_id e1) + 1
       \<and> (now_id e1 < now_id e2 \<longrightarrow> id' (last (images s1)) \<le> id' (last (images s2)))
       \<and> (now_id e1 + 2 \<le> now_id e2 \<longrightarrow> id' (last (images s1)) < id' (last (images s2)))
       \<and> (now_id e1 = now_id e2 \<and> random_id e1 \<le> random_id e2 \<longrightarrow>
            id' (last (images s1)) \<le> id' (last (images s2)))"
proof -
  note a1 = addImage_Some [OF assms(1,2)]
  note a2 = addImage_Some [OF assms(3,4)]
  note b1 = identity_bounds [OF assms(5,6,9)]
  note b2 = identity_bounds [OF assms(7,8,10)]
  have later: "id' (last (images s1)) \<le> id' (last (images s2))" if "now_id e1 < now_id e2"
  proof -
    from that have "(of_nat (now_id e1) :: rat) + 1 \<le> of_nat (now_id e2)"
      by (metis Suc_leI of_nat_Suc of_nat_le_iff add.commute)
    with b1(2) b2(1) show ?thesis unfolding a1(2) a2(2) by linarith
  qed
  have apart: "id' (last (images s1)) < id' (last (images s2))" if "now_id e1 + 2 \<le> now_id e2"
  proof -
    from that have "(of_nat (now_id e1 + 2) :: rat) \<le> of_nat (now_id e2)"
      by (simp only: of_nat_le_iff)
    then have "(of_nat (now_id e1) :: rat) + 2 \<le> of_nat (now_id e2)" by simp
    with b1(2) b2(1) show ?thesis unfolding a1(2) a2(2) by linarith
  qed
  have same: "id' (last (images s1)) \<le> id' (last (images s2))"
    if "now_id e1 = now_id e2 \<and> random_id e1 \<le> random_id e2"
    unfolding a1(2) a2(2) using that by (intro fl_mono) simp
  from a1 b1 later apart same show ?thesis unfolding a1(2) by blast
qed

lemma addImage_decoded:
  "addImage (Some (decoded t r)) png None None s =
     Some (placeImage (decoded t r) png None None 200 100 s)"
  by (simp add: addImage_def js_divide_def decoded_def png_def startsWith_def)

theorem addImage_identity_witness:
  "startsWith (file_type png) ''image/''
   \<and> addImage (Some (decoded t0 (3 / 4))) png None None initial =
         Some (placeImage (decoded t0 (3 / 4)) png None None 200 100 initial)
   \<and> addImage (Some (decoded (t0 + 2) (1 / 4))) png None None
         (placeImage (decoded t0 (3 / 4)) png None None 200 100 initial) =
         Some (placeImage (decoded (t0 + 2) (1 / 4)) png None None 200 100
                 (placeImage (decoded t0 (3 / 4)) png None None 200 100 initial))
   \<and> 0 \<le> random_id (decoded t0 (3 / 4)) \<and> random_id (decoded t0 (3 / 4)) < 1
   \<and> 0 \<le> random_id (decoded (t0 + 2) (1 / 4)) \<and> random_id (decoded (t0 + 2) (1 / 4)) < 1
   \<and> now_id (decoded t0 (3 / 4)) + 1 < 2 ^ 53 \<and> now_id (decoded (t0 + 2) (1 / 4)) + 1 < 2 ^ 53
   \<and> now_id (decoded t0 (3 / 4)) + 2 \<le> now_id (decoded (t0 + 2) (1 / 4))
   \<and> id' (last (images (placeImage (decoded t0 (3 / 4)) png None None 200 100 initial)))
       < id' (last (images (placeImage (decoded (t0 + 2) (1 / 4)) png None None 200 100
                             (placeImage (decoded t0 (3 / 4)) png None None 200 100 initial))))"
proof -
  have f: "startsWith (file_type png) ''image/''" by (simp add: startsWith_def png_def)
  have r1: "0 \<le> random_id (decoded t0 (3 / 4))" "random_id (decoded t0 (3 / 4)) < 1"
    by (simp_all add: decoded_def)
  have r2: "0 \<le> random_id (decoded (t0 + 2) (1 / 4))" "random_id (decoded (t0 + 2) (1 / 4)) < 1"
    by (simp_all add: decoded_def)
  have n1: "now_id (decoded t0 (3 / 4)) + 1 < 2 ^ 53"
    and n2: "now_id (decoded (t0 + 2) (1 / 4)) + 1 < 2 ^ 53"
    by (simp_all add: decoded_def t0_def)
  have ap: "now_id (decoded t0 (3 / 4)) + 2 \<le> now_id (decoded (t0 + 2) (1 / 4))"
    by (simp add: decoded_def)
  note idn = addImage_identity [OF f addImage_decoded f addImage_decoded r1 r2 n1 n2,
      of initial "placeImage (decoded t0 (3 / 4)) png None None 200 100 initial"]
  note ord = idn [THEN conjunct2, THEN conjunct2, THEN conjunct2, THEN conjunct2,
      THEN conjunct2, THEN conjunct1, THEN mp, OF ap]
  from f addImage_decoded [of t0 "3 / 4" initial]
    addImage_decoded [of "t0 + 2" "1 / 4" "placeImage (decoded t0 (3 / 4)) png None None 200 100 initial"]
    r1 r2 n1 n2 ap ord
  show ?thesis by (intro conjI)
qed

text \<open>
  Claim C6 as stated fails for three images pasted within one millisecond: the second has
  a smaller identity than the first, and the third, with another draw, has the identity of
  the second.
\<close>

theorem addImage_identity_counterexample:
  "valid_run initial paste_run
   \<and> length (images three_pastes) = 3
   \<and> id' (images three_pastes ! 0) = of_nat t0 + 3 / 4
   \<and> id' (images three_pastes ! 1) = of_nat t0 + 1 / 4
   \<and> id' (images three_pastes ! 2) = of_nat t0 + 1 / 4
   \<and> id' (images three_pastes ! 1) < id' (images three_pastes ! 0)
   \<and> id' (images three_pastes ! 2) = id' (images three_pastes ! 1)"
proof -
  have v: "valid_run initial paste_run"
    by (simp add: paste_run_def scenario_defs)
  have ids: "map id' (images three_pastes) = [of_nat t0 + 3 / 4, of_nat t0 + 1 / 4, of_nat t0 + 1 / 4]"
    by (simp add: three_pastes_def paste_run_def scenario_defs)
  have "length (map id' (images three_pastes)) = 3" unfolding ids by simp
  then have len: "length (images three_pastes) = 3" by simp
  have n: "id' (images three_pastes ! 0) = map id' (images three_pastes) ! 0"
    "id' (images three_pastes ! 1) = map id' (images three_pastes) ! 1"
    "id' (images three_pastes ! 2) = map id' (images three_pastes) ! 2"
    using len by simp_all
  from v len show ?thesis unfolding n ids by simp
qed

end
